theory Spec2Isabelle
  imports Complex_Main "HOL-Library.Multiset" "HOL-Library.Sublist"
    "HOL-Library.List_Lexorder"
begin

section \<open>Strings of UTF-16 code units\<close>

text \<open>
  The build script (the second part of \<^verbatim>\<open>scripts/sync-obsidian.js\<close>) and the clean
  script \<^verbatim>\<open>scripts/clean.js\<close> work on JavaScript strings, which are sequences of
  16-bit code units. A code unit is modelled as a natural number (below 65536 for a real
  string) and a string as a list of them. No function below computes a code unit other than by copying one of its input, by
  writing an ASCII constant, or by shifting an ASCII letter to its other case, so the bound
  is never exceeded. \<open>js\<close> turns an ASCII literal into such a string.

  \<open>is_space\<close> is the class \<^verbatim>\<open>\s\<close> of ECMAScript regular expressions, which is also the
  set of characters that \<^verbatim>\<open>String.prototype.trim\<close> removes: the white space and line
  terminator code points. \<open>is_word\<close> is \<^verbatim>\<open>\w\<close>, used by the word boundary \<^verbatim>\<open>\b\<close>.
  \<open>canon\<close> is the canonicalisation of the \<^verbatim>\<open>i\<close> flag without the \<^verbatim>\<open>u\<close> flag: a code unit
  is compared by its upper-case form, and a non-ASCII code unit never canonicalises to an
  ASCII one, so on the ASCII patterns of this program only the two cases of a letter
  coincide.
\<close>

type_synonym jschar = nat
type_synonym jsstring = "jschar list"

definition cu :: "char \<Rightarrow> jschar" where
  "cu c = of_char c"

definition js :: "string \<Rightarrow> jsstring" where
  "js = map cu"

definition nl :: jschar where
  "nl = 0x0A"

definition is_space :: "jschar \<Rightarrow> bool" where
  "is_space c \<longleftrightarrow>
     c = 0x09 \<or> c = 0x0A \<or> c = 0x0B \<or> c = 0x0C \<or> c = 0x0D \<or> c = 0x20 \<or> c = 0xA0
     \<or> c = 0x1680 \<or> (0x2000 \<le> c \<and> c \<le> 0x200A) \<or> c = 0x2028 \<or> c = 0x2029
     \<or> c = 0x202F \<or> c = 0x205F \<or> c = 0x3000 \<or> c = 0xFEFF"

definition is_digit :: "jschar \<Rightarrow> bool" where
  "is_digit c \<longleftrightarrow> 0x30 \<le> c \<and> c \<le> 0x39"

definition is_upper :: "jschar \<Rightarrow> bool" where
  "is_upper c \<longleftrightarrow> 0x41 \<le> c \<and> c \<le> 0x5A"

definition is_lower :: "jschar \<Rightarrow> bool" where
  "is_lower c \<longleftrightarrow> 0x61 \<le> c \<and> c \<le> 0x7A"

definition is_word :: "jschar \<Rightarrow> bool" where
  "is_word c \<longleftrightarrow> is_upper c \<or> is_lower c \<or> is_digit c \<or> c = 0x5F"

definition canon :: "jschar \<Rightarrow> jschar" where
  "canon c = (if is_lower c then c - 0x20 else c)"

definition any_char :: "jschar \<Rightarrow> bool" where
  "any_char c \<longleftrightarrow> True"

section \<open>Regular expressions\<close>

text \<open>
  Every regular expression of the two scripts is a sequence of items: a single character or
  character class, a quantified class (greedy or lazy, with a lower and an optional upper
  bound), or one of the assertions \<^verbatim>\<open>^\<close>, \<^verbatim>\<open>$\<close> and \<^verbatim>\<open>\b\<close>. There is no alternation,
  no group and no back reference, and no \<^verbatim>\<open>m\<close> flag.

  \<open>rx_all r p s\<close> runs the pattern \<open>r\<close> at the current position, where \<open>p\<close> is the code unit
  just before the position (\<open>None\<close> at the start of the input) and \<open>s\<close> is the rest of the
  input. It returns every way the pattern can match, in the order in which a backtracking
  matcher tries them: a greedy quantifier tries one more repetition first, a lazy one tries
  to stop first. Each result is the code unit before the end of the match and the input
  left after it. The head of the list is the match that \<^verbatim>\<open>RegExp.prototype.exec\<close> finds at
  this position; the list is empty when there is none.

  \<open>rx_test\<close> is \<^verbatim>\<open>re.test(s)\<close> for a pattern without the \<^verbatim>\<open>g\<close> flag: a match at some
  position. \<open>rx_replace\<close> is \<^verbatim>\<open>s.replace(re, rep)\<close> for a pattern with the \<^verbatim>\<open>g\<close> flag and
  a replacement without \<^verbatim>\<open>$\<close>: the leftmost match is replaced and the scan goes on after
  it (one code unit further after an empty match).
\<close>

datatype item =
    Chr "jschar \<Rightarrow> bool"
  | Quant "jschar \<Rightarrow> bool" nat "nat option"
  | Lazy "jschar \<Rightarrow> bool" nat "nat option"
  | Bol
  | Eol
  | Wb

type_synonym rx = "item list"

definition dec :: "nat option \<Rightarrow> nat option" where
  "dec hi = map_option (\<lambda>h. h - 1) hi"

definition word_before :: "jschar option \<Rightarrow> bool" where
  "word_before p = (case p of None \<Rightarrow> False | Some c \<Rightarrow> is_word c)"

definition word_after :: "jsstring \<Rightarrow> bool" where
  "word_after s = (case s of [] \<Rightarrow> False | c # _ \<Rightarrow> is_word c)"

fun rx_all :: "rx \<Rightarrow> jschar option \<Rightarrow> jsstring \<Rightarrow> (jschar option \<times> jsstring) list" where
  "rx_all [] p s = [(p, s)]"
| "rx_all (Chr c # r) p [] = []"
| "rx_all (Chr c # r) p (x # xs) = (if c x then rx_all r (Some x) xs else [])"
| "rx_all (Quant c lo hi # r) p [] = (if lo = 0 then rx_all r p [] else [])"
| "rx_all (Quant c lo hi # r) p (x # xs) =
     (if c x \<and> hi \<noteq> Some 0 then rx_all (Quant c (lo - 1) (dec hi) # r) (Some x) xs else [])
     @ (if lo = 0 then rx_all r p (x # xs) else [])"
| "rx_all (Lazy c lo hi # r) p [] = (if lo = 0 then rx_all r p [] else [])"
| "rx_all (Lazy c lo hi # r) p (x # xs) =
     (if lo = 0 then rx_all r p (x # xs) else [])
     @ (if c x \<and> hi \<noteq> Some 0 then rx_all (Lazy c (lo - 1) (dec hi) # r) (Some x) xs else [])"
| "rx_all (Bol # r) p s = (if p = None then rx_all r p s else [])"
| "rx_all (Eol # r) p s = (if s = [] then rx_all r p s else [])"
| "rx_all (Wb # r) p s = (if word_before p \<noteq> word_after s then rx_all r p s else [])"

fun rx_search :: "rx \<Rightarrow> jschar option \<Rightarrow> jsstring \<Rightarrow> bool" where
  "rx_search r p [] = (rx_all r p [] \<noteq> [])"
| "rx_search r p (x # xs) = (rx_all r p (x # xs) \<noteq> [] \<or> rx_search r (Some x) xs)"

definition rx_test :: "rx \<Rightarrow> jsstring \<Rightarrow> bool" where
  "rx_test r s = rx_search r None s"

fun rx_replace :: "rx \<Rightarrow> jsstring \<Rightarrow> jschar option \<Rightarrow> jsstring \<Rightarrow> jsstring" where
  "rx_replace r rep p [] = (if rx_all r p [] \<noteq> [] then rep else [])"
| "rx_replace r rep p (x # xs) =
     (case rx_all r p (x # xs) of
        [] \<Rightarrow> x # rx_replace r rep (Some x) xs
      | (q, e) # _ \<Rightarrow>
          if length e < length (x # xs) then rep @ rx_replace r rep q e
          else rep @ x # rx_replace r rep (Some x) xs)"

definition star :: "(jschar \<Rightarrow> bool) \<Rightarrow> item" where
  "star c = Quant c 0 None"

definition plus_q :: "(jschar \<Rightarrow> bool) \<Rightarrow> item" where
  "plus_q c = Quant c 1 None"

definition opt :: "(jschar \<Rightarrow> bool) \<Rightarrow> item" where
  "opt c = Quant c 0 (Some 1)"

definition ch :: "char \<Rightarrow> jschar \<Rightarrow> bool" where
  "ch c x \<longleftrightarrow> x = cu c"

definition ch_i :: "char \<Rightarrow> jschar \<Rightarrow> bool" where
  "ch_i c x \<longleftrightarrow> canon x = canon (cu c)"

definition lit :: "string \<Rightarrow> rx" where
  "lit cs = map (\<lambda>c. Chr (ch c)) cs"

definition lit_i :: "string \<Rightarrow> rx" where
  "lit_i cs = map (\<lambda>c. Chr (ch_i c)) cs"

section \<open>String helpers\<close>

text \<open>
  \<open>split_nl\<close> is \<^verbatim>\<open>s.split('\n')\<close>, \<open>join_nl\<close> is \<^verbatim>\<open>lines.join('\n')\<close>, \<open>slice\<close> is
  \<^verbatim>\<open>Array.prototype.slice(a, b)\<close> for indices that are not negative, and \<open>trim\<close> is
  \<^verbatim>\<open>String.prototype.trim\<close>.
\<close>

fun split_nl :: "jsstring \<Rightarrow> jsstring list" where
  "split_nl [] = [[]]"
| "split_nl (c # cs) =
     (if c = nl then [] # split_nl cs
      else (case split_nl cs of [] \<Rightarrow> [[c]] | l # ls \<Rightarrow> (c # l) # ls))"

fun join_nl :: "jsstring list \<Rightarrow> jsstring" where
  "join_nl [] = []"
| "join_nl [l] = l"
| "join_nl (l # ls) = l @ nl # join_nl ls"

definition slice :: "'a list \<Rightarrow> nat \<Rightarrow> nat \<Rightarrow> 'a list" where
  "slice xs a b = take (b - a) (drop a xs)"

definition trim :: "jsstring \<Rightarrow> jsstring" where
  "trim s = rev (dropWhile is_space (rev (dropWhile is_space s)))"

section \<open>The boilerplate normalizer\<close>

text \<open>
  \<^verbatim>\<open>cleanJournalMarkdown\<close> of the build script:
  \<^verbatim>\<open>
  function cleanJournalMarkdown(text) {
    const lines = String(text || '').split('\n');
    let startIdx = 0;
    for (let i = 0; i < lines.length; i++) {
      const l = lines[i];
      if (/^\s*#{0,6}\s*Must Do'?s\b/i.test(l)) {
        let j = i + 1;
        while (j < lines.length && (/^\s*[-*+]\s+/.test(lines[j]) || /^\s*\d+\.\s+/.test(lines[j])
               || /^\s*\[[ xX]\]\s+/.test(lines[j]) || /^\s*$/.test(lines[j]))) { j++; }
        startIdx = j;
        break;
      }
    }
    let endIdx = lines.length;
    for (let i = startIdx; i < lines.length; i++) {
      if (/\[\[\s*link\s*to\s*\]\]/i.test(lines[i]) || /^\s*#{0,6}\s*link\s*to\b/i.test(lines[i])
          || /^\s*#{0,6}\s*are\s*we\s*closer\b/i.test(lines[i]) || /\b100\s*days\b/i.test(lines[i])) {
        endIdx = i; break;
      }
    }
    const cleaned = lines.slice(startIdx, endIdx).join('\n').replace(/\n{3,}/g, '\n\n').trim();
    return cleaned ? cleaned + '\n' : '';
  }
  \<close>
  The regular expressions are transcribed item by item. The loops become recursions
  over the remaining lines that carry the current index: \<open>find_start\<close> is the first loop
  (with \<open>skip_list\<close> for the inner \<^verbatim>\<open>while\<close>), \<open>find_end\<close> is the second, called on the lines
  from \<open>startIdx\<close> on. The unused local \<^verbatim>\<open>low\<close> of the second loop is left out.
\<close>

definition rx_mustdo :: rx where
  "rx_mustdo = [Bol, star is_space, Quant (ch_i CHR ''#'') 0 (Some 6), star is_space]
     @ lit_i ''Must Do'' @ [opt (ch_i (CHR 0x27))] @ lit_i ''s'' @ [Wb]"

definition rx_bullet :: rx where
  "rx_bullet = [Bol, star is_space,
     Chr (\<lambda>x. x = cu CHR ''-'' \<or> x = cu CHR ''*'' \<or> x = cu CHR ''+''), plus_q is_space]"

definition rx_numbered :: rx where
  "rx_numbered = [Bol, star is_space, plus_q is_digit, Chr (ch CHR ''.''), plus_q is_space]"

definition rx_checkbox :: rx where
  "rx_checkbox = [Bol, star is_space, Chr (ch CHR ''[''),
     Chr (\<lambda>x. x = cu CHR '' '' \<or> x = cu CHR ''x'' \<or> x = cu CHR ''X''),
     Chr (ch CHR '']''), plus_q is_space]"

definition rx_blank :: rx where
  "rx_blank = [Bol, star is_space, Eol]"

definition rx_wikilink :: rx where
  "rx_wikilink = lit_i ''[['' @ [star is_space] @ lit_i ''link'' @ [star is_space]
     @ lit_i ''to'' @ [star is_space] @ lit_i '']]''"

definition rx_linkto :: rx where
  "rx_linkto = [Bol, star is_space, Quant (ch_i CHR ''#'') 0 (Some 6), star is_space]
     @ lit_i ''link'' @ [star is_space] @ lit_i ''to'' @ [Wb]"

definition rx_closer :: rx where
  "rx_closer = [Bol, star is_space, Quant (ch_i CHR ''#'') 0 (Some 6), star is_space]
     @ lit_i ''are'' @ [star is_space] @ lit_i ''we'' @ [star is_space] @ lit_i ''closer'' @ [Wb]"

definition rx_100days :: rx where
  "rx_100days = [Wb] @ lit_i ''100'' @ [star is_space] @ lit_i ''days'' @ [Wb]"

definition rx_blank_run :: rx where
  "rx_blank_run = [Quant (\<lambda>x. x = nl) 3 None]"

definition is_header :: "jsstring \<Rightarrow> bool" where
  "is_header l = rx_test rx_mustdo l"

definition is_list_or_blank :: "jsstring \<Rightarrow> bool" where
  "is_list_or_blank l \<longleftrightarrow>
     rx_test rx_bullet l \<or> rx_test rx_numbered l \<or> rx_test rx_checkbox l \<or> rx_test rx_blank l"

definition is_footer :: "jsstring \<Rightarrow> bool" where
  "is_footer l \<longleftrightarrow>
     rx_test rx_wikilink l \<or> rx_test rx_linkto l \<or> rx_test rx_closer l \<or> rx_test rx_100days l"

fun skip_list :: "jsstring list \<Rightarrow> nat \<Rightarrow> nat" where
  "skip_list [] j = j"
| "skip_list (l # ls) j = (if is_list_or_blank l then skip_list ls (j + 1) else j)"

fun find_start :: "jsstring list \<Rightarrow> nat \<Rightarrow> nat" where
  "find_start [] i = 0"
| "find_start (l # ls) i = (if is_header l then skip_list ls (i + 1) else find_start ls (i + 1))"

fun find_end :: "jsstring list \<Rightarrow> nat \<Rightarrow> nat" where
  "find_end [] i = i"
| "find_end (l # ls) i = (if is_footer l then i else find_end ls (i + 1))"

definition cleanJournalMarkdown :: "jsstring \<Rightarrow> jsstring" where
  "cleanJournalMarkdown text =
     (let lines = split_nl text;
          startIdx = find_start lines 0;
          endIdx = find_end (drop startIdx lines) startIdx;
          cleaned = trim (rx_replace rx_blank_run [nl, nl] None
                      (join_nl (slice lines startIdx endIdx)))
      in if cleaned \<noteq> [] then cleaned @ [nl] else [])"

subsection \<open>The clean script's copy\<close>

text \<open>
  \<^verbatim>\<open>cleanTopAndBottom\<close> of the clean script has the same two loops and the same regular
  expression literals, written a second time. It gets its own recursions here, so that the
  agreement of the two functions is a statement about two definitions.
\<close>

fun top_skip :: "jsstring list \<Rightarrow> nat \<Rightarrow> nat" where
  "top_skip [] j = j"
| "top_skip (l # ls) j =
     (if rx_test rx_bullet l \<or> rx_test rx_numbered l \<or> rx_test rx_checkbox l \<or> rx_test rx_blank l
      then top_skip ls (j + 1) else j)"

fun top_start :: "jsstring list \<Rightarrow> nat \<Rightarrow> nat" where
  "top_start [] i = 0"
| "top_start (l # ls) i =
     (if rx_test rx_mustdo l then top_skip ls (i + 1) else top_start ls (i + 1))"

fun bottom_end :: "jsstring list \<Rightarrow> nat \<Rightarrow> nat" where
  "bottom_end [] i = i"
| "bottom_end (l # ls) i =
     (if rx_test rx_wikilink l \<or> rx_test rx_linkto l \<or> rx_test rx_closer l \<or> rx_test rx_100days l
      then i else bottom_end ls (i + 1))"

definition cleanTopAndBottom :: "jsstring \<Rightarrow> jsstring" where
  "cleanTopAndBottom markdown_text =
     (let lines = split_nl markdown_text;
          startIdx = top_start lines 0;
          endIdx = bottom_end (drop startIdx lines) startIdx;
          cleaned = trim (rx_replace rx_blank_run [nl, nl] None
                      (join_nl (slice lines startIdx endIdx)))
      in if cleaned \<noteq> [] then cleaned @ [nl] else [])"

section \<open>Tokenizer and stopword filter\<close>

text \<open>
  \<^verbatim>\<open>
  function tokenizeForWordCount(text) {
    const cleaned = cleanJournalMarkdown(text)
      .replace(FENCE, ' ')            // three backquotes, [\s\S]*? , three backquotes, flag g
      .replace(INLINE, ' ')           // a backquote, [^backquote]* , a backquote, flag g
      .replace(/!\[[^\]]*\]\([^\)]*\)/g, ' ')
      .replace(/\[[^\]]*\]\([^\)]*\)/g, ' ')
      .replace(/[\u2019']/g, "'")
      .replace(/[^a-zA-Z0-9\s']/g, ' ')
      .toLowerCase();
    const tokens = cleaned.split(/\s+/).filter(Boolean);
    return tokens;
  }
  function wordsWithoutStopwords(tokens) {
    return tokens.filter(w => w.length > 1 && !STOPWORDS.has(w));
  }
  \<close>
  When \<^verbatim>\<open>toLowerCase\<close> is called, every code unit left in the string is an ASCII letter, a
  digit, an apostrophe or white space, so the only code units it changes are \<open>A\<close> to \<open>Z\<close>;
  \<open>toLowerCase\<close> is modelled on that range. \<open>rx_split\<close> is \<^verbatim>\<open>s.split(re)\<close> for a pattern
  without groups: the pattern is tried at each position in turn, and a match that is empty
  at the start of the current piece is skipped.
\<close>

definition rx_fence :: rx where
  "rx_fence = lit ''```'' @ [Lazy any_char 0 None] @ lit ''```''"

definition rx_inline_code :: rx where
  "rx_inline_code = [Chr (ch CHR ''`''), star (\<lambda>x. x \<noteq> cu CHR ''`''), Chr (ch CHR ''`'')]"

definition rx_image :: rx where
  "rx_image = lit ''!['' @ [star (\<lambda>x. x \<noteq> cu CHR '']'')] @ lit ''](''
     @ [star (\<lambda>x. x \<noteq> cu CHR '')'')] @ lit '')''"

definition rx_link :: rx where
  "rx_link = lit ''['' @ [star (\<lambda>x. x \<noteq> cu CHR '']'')] @ lit ''](''
     @ [star (\<lambda>x. x \<noteq> cu CHR '')'')] @ lit '')''"

definition rx_apostrophe :: rx where
  "rx_apostrophe = [Chr (\<lambda>x. x = 0x2019 \<or> x = cu (CHR 0x27))]"

definition rx_non_word :: rx where
  "rx_non_word = [Chr (\<lambda>x. \<not> (is_lower x \<or> is_upper x \<or> is_digit x \<or> is_space x
     \<or> x = cu (CHR 0x27)))]"

definition rx_spaces :: rx where
  "rx_spaces = [plus_q is_space]"

definition to_lower :: "jschar \<Rightarrow> jschar" where
  "to_lower c = (if is_upper c then c + 0x20 else c)"

definition toLowerCase :: "jsstring \<Rightarrow> jsstring" where
  "toLowerCase s = map to_lower s"

fun rx_split_go :: "rx \<Rightarrow> jsstring \<Rightarrow> jschar option \<Rightarrow> jsstring \<Rightarrow> jsstring list" where
  "rx_split_go r acc p [] = [rev acc]"
| "rx_split_go r acc p (x # xs) =
     (case rx_all r p (x # xs) of
        [] \<Rightarrow> rx_split_go r (x # acc) (Some x) xs
      | (q, e) # _ \<Rightarrow>
          if length e < length (x # xs) then rev acc # rx_split_go r [] q e
          else if acc = [] then rx_split_go r [x] (Some x) xs
          else rev acc # rx_split_go r [x] (Some x) xs)"

definition rx_split :: "rx \<Rightarrow> jsstring \<Rightarrow> jsstring list" where
  "rx_split r s =
     (if s = [] then (if rx_all r None [] \<noteq> [] then [] else [[]])
      else rx_split_go r [] None s)"

definition tokenizeForWordCount :: "jsstring \<Rightarrow> jsstring list" where
  "tokenizeForWordCount text =
     (let cleaned = toLowerCase
            (rx_replace rx_non_word (js '' '') None
            (rx_replace rx_apostrophe [cu (CHR 0x27)] None
            (rx_replace rx_link (js '' '') None
            (rx_replace rx_image (js '' '') None
            (rx_replace rx_inline_code (js '' '') None
            (rx_replace rx_fence (js '' '') None
            (cleanJournalMarkdown text)))))));
          tokens = filter (\<lambda>t. t \<noteq> []) (rx_split rx_spaces cleaned)
      in tokens)"

definition STOPWORDS :: "jsstring list" where
  "STOPWORDS = map js [
    ''the'', ''a'', ''an'', ''and'', ''or'', ''but'', ''if'', ''then'', ''else'', ''when'',
    ''at'', ''by'', ''for'', ''in'', ''of'', ''on'', ''to'', ''up'', ''with'', ''is'',
    ''it'', ''as'', ''be'', ''can'', ''did'', ''do'', ''does'', ''doing'', ''done'',
    ''from'', ''had'', ''has'', ''have'', ''i'', ''me'', ''my'', ''we'', ''our'', ''you'',
    ''your'', ''he'', ''she'', ''they'', ''them'', ''their'', ''this'', ''that'',
    ''these'', ''those'', ''so'', ''not'', ''no'', ''yes'', ''just'', ''than'', ''too'',
    ''very'', ''are'', ''was'', ''were'', ''will'', ''would'', ''could'', ''should'',
    ''about'', ''after'', ''again'', ''against'', ''all'', ''am'', ''any'', ''because'',
    ''been'', ''before'', ''being'', ''between'', ''both'', ''into'', ''over'', ''under'',
    ''out'', ''off'', ''only'', ''own'', ''same'', ''some'', ''such'', ''own'', ''what'',
    ''which'', ''who'', ''whom'', ''why'', ''how'', ''there'', ''here'', ''where'', ''also'']"

definition wordsWithoutStopwords :: "jsstring list \<Rightarrow> jsstring list" where
  "wordsWithoutStopwords tokens = filter (\<lambda>w. length w > 1 \<and> w \<notin> set STOPWORDS) tokens"

section \<open>Entries and aggregation\<close>

text \<open>
  An entry as \<^verbatim>\<open>loadEntries\<close> builds it: the fields of \<^verbatim>\<open>parseDateFromFilename\<close> (without
  the \<^verbatim>\<open>Date\<close> object, which the statistics never read), the text and the rendered page.

  A JavaScript \<^verbatim>\<open>Map\<close> keeps its keys in insertion order and the program iterates over
  its maps, so a map is an association list: \<open>map_set\<close> overwrites the value of a key in
  place or appends a new key at the end, \<open>map_of\<close> is \<^verbatim>\<open>get\<close>, and \<open>map_get0\<close> is
  \<^verbatim>\<open>(m.get(k) || 0)\<close>. Counts are natural numbers: the script counts in double
  precision numbers, which are exact for integers below \<open>2^53\<close>.
  \<^verbatim>\<open>
  function aggregateCountsByYear(items) {
    const map = new Map();
    for (const it of items) { map.set(it.year, (map.get(it.year) || 0) + it.count); }
    return Array.from(map.entries()).sort((a, b) => a[0] - b[0])
      .map(([year, total]) => ({ year, total }));
  }
  function buildWordFrequency(entries) {
    const overall = new Map();
    const perYear = new Map();
    for (const e of entries) {
      const tokens = wordsWithoutStopwords(tokenizeForWordCount(e.markdown));
      for (const w of tokens) {
        overall.set(w, (overall.get(w) || 0) + 1);
        const y = e.meta.year;
        if (!perYear.has(y)) perYear.set(y, new Map());
        const ym = perYear.get(y);
        ym.set(w, (ym.get(w) || 0) + 1);
      }
    }
    return { overall, perYear };
  }
  \<close>
  \<^verbatim>\<open>Array.prototype.sort\<close> is stable, as \<open>sort_key\<close> is. A year and total object is a pair.
  The inner map of a year is mutated in place by the script; the model writes the updated
  inner map back under its year, which keeps its position.
\<close>

record meta =
  year :: nat
  month :: nat
  day :: nat
  monthDay :: jsstring
  slug :: jsstring

record entry =
  meta :: meta
  markdown :: jsstring
  html :: jsstring

record word_count =
  wc_slug :: jsstring
  wc_year :: nat
  wc_count :: nat

fun map_set :: "'k \<Rightarrow> 'v \<Rightarrow> ('k \<times> 'v) list \<Rightarrow> ('k \<times> 'v) list" where
  "map_set k v [] = [(k, v)]"
| "map_set k v ((k', v') # m) = (if k' = k then (k, v) # m else (k', v') # map_set k v m)"

definition map_get0 :: "('k \<times> nat) list \<Rightarrow> 'k \<Rightarrow> nat" where
  "map_get0 m k = (case map_of m k of None \<Rightarrow> 0 | Some v \<Rightarrow> v)"

definition filtered_tokens :: "entry \<Rightarrow> jsstring list" where
  "filtered_tokens e = wordsWithoutStopwords (tokenizeForWordCount (markdown e))"

definition getWordCountsPerEntry :: "entry list \<Rightarrow> word_count list" where
  "getWordCountsPerEntry entries =
     map (\<lambda>e. \<lparr> wc_slug = slug (meta e), wc_year = year (meta e),
                wc_count = length (filtered_tokens e) \<rparr>) entries"

definition aggregateCountsByYear :: "word_count list \<Rightarrow> (nat \<times> nat) list" where
  "aggregateCountsByYear items =
     sort_key fst
       (foldl (\<lambda>m it. map_set (wc_year it) (map_get0 m (wc_year it) + wc_count it) m) [] items)"

type_synonym freq = "(jsstring \<times> nat) list"

definition count_word :: "nat \<Rightarrow> freq \<times> (nat \<times> freq) list \<Rightarrow> jsstring
    \<Rightarrow> freq \<times> (nat \<times> freq) list" where
  "count_word y st w =
     (let overall = map_set w (map_get0 (fst st) w + 1) (fst st);
          perYear = (if map_of (snd st) y = None then map_set y [] (snd st) else snd st);
          ym = (case map_of perYear y of None \<Rightarrow> [] | Some t \<Rightarrow> t)
      in (overall, map_set y (map_set w (map_get0 ym w + 1) ym) perYear))"

definition buildWordFrequency :: "entry list \<Rightarrow> freq \<times> (nat \<times> freq) list" where
  "buildWordFrequency entries =
     foldl (\<lambda>st e. foldl (count_word (year (meta e))) st (filtered_tokens e)) ([], []) entries"

section \<open>Double precision numbers\<close>

text \<open>
  A JavaScript number is an IEEE 754 double. Counts, indices, widths and heights are
  integers, on which the arithmetic of the scripts is exact below \<open>2^53\<close>; they are
  modelled as natural numbers and integers. The variance of a series and the coordinates of
  a sparkline are fractions: there every operation of the script rounds its exact result to
  the nearest double, the one with the even significand at a tie. A finite double is
  modelled as the rational number it denotes, and \<open>fl\<close> is that rounding: \<open>expo q\<close> is the
  exponent of the leading bit of \<open>q\<close>, the result keeps 53 bits from there on, and below
  \<open>2^-1022\<close> the spacing stays \<open>2^-1074\<close> (the subnormal numbers). A result of magnitude
  \<open>2^1024\<close> or more is \<^verbatim>\<open>Infinity\<close> in the script and has no counterpart here; the
  series of the program are counts of words and stay far below.
\<close>

function bits :: "nat \<Rightarrow> nat" where
  "bits n = (if n = 0 then 0 else Suc (bits (n div 2)))"
  by pat_completeness auto
termination
  by (relation "measure id") auto

declare bits.simps [simp del]

definition expo :: "rat \<Rightarrow> int" where
  "expo q = (if 1 \<le> q then int (bits (nat \<lfloor>q\<rfloor>)) - 1
             else - int (bits (nat (\<lceil>1 / q\<rceil> - 1))))"

definition round_even :: "rat \<Rightarrow> int" where
  "round_even m =
     (let f = \<lfloor>m\<rfloor>; d = m - of_int f
      in if d < 1 / 2 then f else if 1 / 2 < d then f + 1 else if even f then f else f + 1)"

definition fl :: "rat \<Rightarrow> rat" where
  "fl q =
     (if q = 0 then 0
      else (let u = max (expo \<bar>q\<bar> - 52) (- 1074)
            in sgn q * of_int (round_even (\<bar>q\<bar> / 2 powi u)) * 2 powi u))"

section \<open>The statistics page\<close>

text \<open>
  The values that \<^verbatim>\<open>statsPage(entries)\<close> computes before it renders the page, each as a
  function of the entries (template strings are written with \<open>+\<close> here):
  \<^verbatim>\<open>
  const perMonthMap = new Map();
  for (const e of entries) {
    const ym = e.meta.year + '-' + String(e.meta.month).padStart(2, '0');
    const count = wordsWithoutStopwords(tokenizeForWordCount(e.markdown)).length;
    perMonthMap.set(ym, (perMonthMap.get(ym) || 0) + count);
  }
  const perMonth = Array.from(perMonthMap.entries()).sort((a,b) => a[0].localeCompare(b[0]));

  const monthlyOrder = Array.from(new Set(entries.map(e => ym(e)))).sort((a,b)=>a.localeCompare(b));
  const monthIndex = new Map(monthlyOrder.map((k,i)=>[k,i]));
  const perWordMonthCounts = new Map();
  for (const e of entries) {
    const tokens = wordsWithoutStopwords(tokenizeForWordCount(e.markdown));
    for (const w of tokens) {
      if (!perWordMonthCounts.has(w))
        perWordMonthCounts.set(w, new Array(monthlyOrder.length).fill(0));
      const arr = perWordMonthCounts.get(w);
      arr[monthIndex.get(ym(e))]++;
    }
  }
  const wordsGte10 = Array.from(perWordMonthCounts.entries())
    .filter(([w, arr]) => arr.reduce((a,b)=>a+b,0) >= 10)
    .map(([w, arr]) => [w, arr.slice(1)]); // drop first month for normalization
  wordsGte10.sort((a,b)=> variance(b[1]) - variance(a[1]));

  const windowN = Math.min(3, Math.max(1, monthlyOrder.length >> 3) || 3);
  const end = monthlyOrder.length;
  const prevStart = Math.max(0, end - 2 * windowN);
  const havePrev = (end - prevStart) >= 2 * windowN;
  const hottest = wordsGte10
    .map(([word, series]) => {
      const recent = series.slice(Math.max(0, series.length - windowN)).reduce((a,b)=>a+b,0);
      const prev = havePrev ? series.slice(Math.max(0, series.length - 2*windowN),
                                           Math.max(0, series.length - windowN))
                                    .reduce((a,b)=>a+b,0) : 0;
      const delta = recent - prev;
      return { word, recent, prev, delta, series };
    })
    .filter(x => x.delta > 0)
    .sort((a,b) => b.delta - a.delta)
    .slice(0, 50);
  \<close>
  The month keys consist of digits and a hyphen, on which \<^verbatim>\<open>localeCompare\<close> is the
  lexicographic order of the code units; that is the order of lists used by \<open>sort\<close> here.
  \<open>new_Set\<close> is the insertion-ordered \<^verbatim>\<open>Set\<close>. In \<open>bump_at\<close> the index is what
  \<^verbatim>\<open>monthIndex.get\<close> returns; the script would write outside the array for an index that is
  missing or too large, the model leaves the array as it is there, and
  \<open>month_index_valid\<close> below shows that neither happens. \<open>candidates\<close> is \<^verbatim>\<open>wordsGte10\<close>
  before the sort and \<open>wordsGte10\<close> after it, which is what the hottest ranking reads.
  The number of months is the length of an array; below \<open>2^31\<close>, which is taken for granted
  here, the 32-bit shift \<^verbatim>\<open>>> 3\<close> is the integer division by 8.

  The variance is computed as the script computes it, with every subtraction, product, sum
  and quotient rounded to a double (\<^verbatim>\<open>function variance(arr)\<close> of the script: the mean
  is \<^verbatim>\<open>arr.reduce((a,b)=>a+b,0) / arr.length\<close>, the result is
  \<^verbatim>\<open>arr.reduce((s,x)=>s + (x-mean)*(x-mean), 0) / arr.length\<close>). The comparator of the
  sort is the difference of two variances, which is negative, zero or positive as the exact
  difference is; so the sort is the stable sort by descending variance.
\<close>

function show_nat :: "nat \<Rightarrow> jsstring" where
  "show_nat n = (if n < 10 then [0x30 + n] else show_nat (n div 10) @ [0x30 + n mod 10])"
  by pat_completeness auto
termination
  by (relation "measure id") auto

declare show_nat.simps [simp del]

definition padStart2 :: "jsstring \<Rightarrow> jsstring" where
  "padStart2 s = replicate (2 - length s) (cu CHR ''0'') @ s"

definition ym_key :: "entry \<Rightarrow> jsstring" where
  "ym_key e = show_nat (year (meta e)) @ js ''-'' @ padStart2 (show_nat (month (meta e)))"

definition perMonth :: "entry list \<Rightarrow> (jsstring \<times> nat) list" where
  "perMonth entries =
     sort_key fst
       (foldl (\<lambda>m e. map_set (ym_key e) (map_get0 m (ym_key e) + length (filtered_tokens e)) m)
          [] entries)"

fun set_add :: "'a \<Rightarrow> 'a list \<Rightarrow> 'a list" where
  "set_add x [] = [x]"
| "set_add x (y # ys) = (if y = x then y # ys else y # set_add x ys)"

definition new_Set :: "'a list \<Rightarrow> 'a list" where
  "new_Set xs = foldl (\<lambda>s x. set_add x s) [] xs"

definition monthlyOrder :: "entry list \<Rightarrow> jsstring list" where
  "monthlyOrder entries = sort (new_Set (map ym_key entries))"

definition monthIndex :: "entry list \<Rightarrow> (jsstring \<times> nat) list" where
  "monthIndex entries =
     foldl (\<lambda>m (k, i). map_set k i m) []
       (zip (monthlyOrder entries) [0 ..< length (monthlyOrder entries)])"

definition bump_at :: "nat list \<Rightarrow> nat option \<Rightarrow> nat list" where
  "bump_at arr oi =
     (case oi of None \<Rightarrow> arr
      | Some i \<Rightarrow> if i < length arr then arr[i := arr ! i + 1] else arr)"

definition count_month :: "nat \<Rightarrow> nat option \<Rightarrow> (jsstring \<times> nat list) list \<Rightarrow> jsstring
    \<Rightarrow> (jsstring \<times> nat list) list" where
  "count_month n oi m w =
     (let m1 = (if map_of m w = None then map_set w (replicate n 0) m else m);
          arr = (case map_of m1 w of None \<Rightarrow> [] | Some a \<Rightarrow> a)
      in map_set w (bump_at arr oi) m1)"

definition perWordMonthCounts :: "entry list \<Rightarrow> (jsstring \<times> nat list) list" where
  "perWordMonthCounts entries =
     foldl (\<lambda>m e. foldl (count_month (length (monthlyOrder entries))
                            (map_of (monthIndex entries) (ym_key e))) m (filtered_tokens e))
       [] entries"

definition variance :: "nat list \<Rightarrow> rat" where
  "variance arr =
     (if arr = [] then 0
      else (let mean = fl (of_nat (sum_list arr) / of_nat (length arr))
            in fl (foldl (\<lambda>s x. fl (s + fl (fl (of_nat x - mean) * fl (of_nat x - mean)))) 0 arr
                   / of_nat (length arr))))"

definition candidates :: "entry list \<Rightarrow> (jsstring \<times> nat list) list" where
  "candidates entries =
     map (\<lambda>(w, arr). (w, drop 1 arr))
       (filter (\<lambda>(w, arr). sum_list arr \<ge> 10) (perWordMonthCounts entries))"

definition wordsGte10 :: "entry list \<Rightarrow> (jsstring \<times> nat list) list" where
  "wordsGte10 entries = sort_key (\<lambda>(w, series). - variance series) (candidates entries)"

definition windowN :: "nat \<Rightarrow> nat" where
  "windowN n = min 3 (let m = max 1 (n div 8) in if m = 0 then 3 else m)"

definition havePrev :: "nat \<Rightarrow> bool" where
  "havePrev n =
     (let end = int n;
          prevStart = max 0 (end - 2 * int (windowN n))
      in end - prevStart \<ge> 2 * int (windowN n))"

record hot =
  word :: jsstring
  recent :: nat
  prev :: nat
  delta :: int
  series :: "nat list"

definition hot_entry :: "nat \<Rightarrow> jsstring \<times> nat list \<Rightarrow> hot" where
  "hot_entry n ws =
     (let w = int (windowN n);
          len = int (length (snd ws));
          recent = sum_list (drop (nat (max 0 (len - w))) (snd ws));
          prev = (if havePrev n
                  then sum_list (slice (snd ws) (nat (max 0 (len - 2 * w))) (nat (max 0 (len - w))))
                  else 0)
      in \<lparr> word = fst ws, recent = recent, prev = prev, delta = int recent - int prev,
           series = snd ws \<rparr>)"

definition hottest_of :: "nat \<Rightarrow> (jsstring \<times> nat list) list \<Rightarrow> hot list" where
  "hottest_of n ws =
     take 50 (sort_key (\<lambda>h. - delta h) (filter (\<lambda>h. delta h > 0) (map (hot_entry n) ws)))"

definition hottest :: "entry list \<Rightarrow> hot list" where
  "hottest entries = hottest_of (length (monthlyOrder entries)) (wordsGte10 entries)"

section \<open>The sparkline renderer\<close>

text \<open>
  The renderer (template strings are written with \<open>+\<close> here):
  \<^verbatim>\<open>
  function renderSparkline(values, { width = 280, height = 60, stroke = '#fff' } = {}) {
    const n = values.length;
    if (n === 0) return '';
    const max = Math.max(...values);
    const min = Math.min(...values);
    const pad = 6;
    const W = width;
    const H = height;
    const range = max === min ? 1 : (max - min);
    const points = values.map((v, i) => {
      const x = pad + (i * (W - 2 * pad)) / Math.max(1, n - 1);
      const y = H - pad - ((v - min) * (H - 2 * pad)) / range;
      return [x, y];
    });
    const d = points.map((p, i) => (i === 0 ? 'M' : 'L') + p[0].toFixed(2) + ',' + p[1].toFixed(2))
      .join(' ');
    return '<svg width="' + W + '" height="' + H + '" viewBox="0 0 ' + W + ' ' + H + '"'
      + ' xmlns="http://www.w3.org/2000/svg" class="sparkline">\n'
      + '    <path d="' + d + '" fill="none" stroke="' + stroke + '" stroke-width="2" />\n'
      + '  </svg>';
  }
  \<close>
  The values are finite doubles; the width and the height are integers at every call
  (the literals 280, 300, 400, 1000 and 50, 60, 120, 160). \<open>x_coord\<close> and \<open>y_coord\<close> are the
  two coordinates of a point as the script computes them: the differences
  \<^verbatim>\<open>W - 2 * pad\<close>, \<^verbatim>\<open>H - pad\<close> and \<^verbatim>\<open>H - 2 * pad\<close> of integers are exact, every other
  operation is rounded by \<open>fl\<close>. \<open>toFixed2\<close> is \<^verbatim>\<open>toFixed(2)\<close> on magnitudes below \<open>10^21\<close>: of the
  double it is given it prints the nearest multiple of one hundredth, the larger one at a
  tie, with the sign in front. \<open>svg\<close> is the template of the returned string around the
  path \<open>d\<close>.
\<close>

definition pad :: int where
  "pad = 6"

definition x_denominator :: "nat \<Rightarrow> nat" where
  "x_denominator n = max 1 (n - 1)"

definition y_range :: "rat list \<Rightarrow> rat" where
  "y_range values =
     (let mx = Max (set values); mn = Min (set values)
      in if mx = mn then 1 else fl (mx - mn))"

definition x_coord :: "nat \<Rightarrow> int \<Rightarrow> nat \<Rightarrow> rat" where
  "x_coord n W i =
     fl (of_int pad + fl (fl (of_int (int i * (W - 2 * pad))) / of_nat (x_denominator n)))"

definition y_coord :: "rat list \<Rightarrow> int \<Rightarrow> rat \<Rightarrow> rat" where
  "y_coord values H v =
     fl (of_int (H - pad)
         - fl (fl (fl (v - Min (set values)) * of_int (H - 2 * pad)) / y_range values))"

definition sparkline_points :: "rat list \<Rightarrow> int \<Rightarrow> int \<Rightarrow> (rat \<times> rat) list" where
  "sparkline_points values W H =
     map (\<lambda>(v, i). (x_coord (length values) W i, y_coord values H v))
       (zip values [0 ..< length values])"

definition show_int :: "int \<Rightarrow> jsstring" where
  "show_int i = (if i < 0 then js ''-'' @ show_nat (nat (- i)) else show_nat (nat i))"

definition toFixed2 :: "rat \<Rightarrow> jsstring" where
  "toFixed2 q =
     (let n = nat \<lfloor>\<bar>q\<bar> * 100 + 1 / 2\<rfloor>
      in (if q < 0 then js ''-'' else []) @ show_nat (n div 100) @ js ''.''
         @ show_nat (n div 10 mod 10) @ show_nat (n mod 10))"

definition path_commands :: "rat list \<Rightarrow> int \<Rightarrow> int \<Rightarrow> jsstring list" where
  "path_commands values W H =
     map (\<lambda>(p, i). (if i = 0 then js ''M'' else js ''L'') @ toFixed2 (fst p) @ js '','' @ toFixed2 (snd p))
       (zip (sparkline_points values W H) [0 ..< length values])"

fun join_sp :: "jsstring list \<Rightarrow> jsstring" where
  "join_sp [] = []"
| "join_sp [c] = c"
| "join_sp (c # cs) = c @ cu CHR '' '' # join_sp cs"

definition dq :: jsstring where
  "dq = [cu (CHR 0x22)]"

definition svg :: "int \<Rightarrow> int \<Rightarrow> jsstring \<Rightarrow> jsstring \<Rightarrow> jsstring" where
  "svg W H stroke d =
     js ''<svg width='' @ dq @ show_int W @ dq @ js '' height='' @ dq @ show_int H @ dq
     @ js '' viewBox='' @ dq @ js ''0 0 '' @ show_int W @ js '' '' @ show_int H @ dq
     @ js '' xmlns='' @ dq @ js ''http://www.w3.org/2000/svg'' @ dq
     @ js '' class='' @ dq @ js ''sparkline'' @ dq @ js ''>'' @ [nl]
     @ js ''    <path d='' @ dq @ d @ dq
     @ js '' fill='' @ dq @ js ''none'' @ dq @ js '' stroke='' @ dq @ stroke @ dq
     @ js '' stroke-width='' @ dq @ js ''2'' @ dq @ js '' />'' @ [nl]
     @ js ''  </svg>''"

definition renderSparkline :: "rat list \<Rightarrow> int \<Rightarrow> int \<Rightarrow> jsstring \<Rightarrow> jsstring" where
  "renderSparkline values W H stroke =
     (if length values = 0 then []
      else svg W H stroke (join_sp (path_commands values W H)))"

section \<open>Notions used in the statements and proofs\<close>

text \<open>
  The tokens of all entries in order, the sum and the cells of a row of the matrix, the
  tokens of the entries of one month or one year, and the counts and keys of the nested
  per-year table.
\<close>

definition all_tokens :: "entry list \<Rightarrow> jsstring list" where
  "all_tokens es = concat (map filtered_tokens es)"

definition row_sum :: "(jsstring \<times> nat list) list \<Rightarrow> jsstring \<Rightarrow> nat" where
  "row_sum m w = (case map_of m w of None \<Rightarrow> 0 | Some arr \<Rightarrow> sum_list arr)"

definition rows_ok :: "nat \<Rightarrow> (jsstring \<times> nat list) list \<Rightarrow> bool" where
  "rows_ok n m \<longleftrightarrow> distinct (map fst m) \<and> (\<forall>(k, a) \<in> set m. length a = n)"

definition cell :: "(jsstring \<times> nat list) list \<Rightarrow> jsstring \<Rightarrow> nat \<Rightarrow> nat" where
  "cell m w i = (case map_of m w of None \<Rightarrow> 0 | Some arr \<Rightarrow> arr ! i)"

definition index_tokens :: "(entry \<Rightarrow> nat option) \<Rightarrow> entry list \<Rightarrow> nat \<Rightarrow> jsstring list" where
  "index_tokens idx es i = concat (map filtered_tokens (filter (\<lambda>e. idx e = Some i) es))"

definition year_tokens :: "entry list \<Rightarrow> nat \<Rightarrow> jsstring list" where
  "year_tokens es y = concat (map filtered_tokens (filter (\<lambda>e. year (meta e) = y) es))"

definition ycount :: "(nat \<times> freq) list \<Rightarrow> nat \<Rightarrow> jsstring \<Rightarrow> nat" where
  "ycount P y w = (case map_of P y of None \<Rightarrow> 0 | Some t \<Rightarrow> map_get0 t w)"

definition ykeys :: "(nat \<times> freq) list \<Rightarrow> nat \<Rightarrow> jsstring set" where
  "ykeys P y = (case map_of P y of None \<Rightarrow> {} | Some t \<Rightarrow> fst ` set t)"

definition yrows :: "(nat \<times> freq) list \<Rightarrow> bool" where
  "yrows P \<longleftrightarrow> (\<forall>y t. map_of P y = Some t \<longrightarrow> t \<noteq> [])"


definition lead :: "jsstring \<Rightarrow> nat" where
  "lead s = length (takeWhile (\<lambda>c. c = nl) s)"




section \<open>Example inputs\<close>

text \<open>
  The example of the normalizer, an entry that mentions the marker a second time, three
  short texts, an entry with the fields that \<^verbatim>\<open>parseDateFromFilename\<close> derives from a file
  name, and lists of such entries: two entries in two months, six entries in which a word
  has 10 of its 11 occurrences in the first month, six entries over three months in which a
  word rises, and eleven entries in which 51 words occur ten times each in the second of
  two months.
\<close>

definition example_entry :: jsstring where
  "example_entry = js ''## Must Do's'' @ [nl] @ js ''- [ ] task'' @ [nl, nl]
     @ js ''Body text here.'' @ [nl, nl] @ js ''[[link to]]'' @ [nl] @ js ''footer junk''"


definition text_a :: jsstring where
  "text_a = js ''Focus, focus on the plan.''"

definition text_b :: jsstring where
  "text_b = js ''The plan: FOCUS!''"

definition text_c :: jsstring where
  "text_c = js ''The THE the, a I x Ok don't (done).''"

definition entry_of :: "nat \<Rightarrow> nat \<Rightarrow> nat \<Rightarrow> jsstring \<Rightarrow> entry" where
  "entry_of y m d text =
     \<lparr> meta = \<lparr> year = y, month = m, day = d,
                 monthDay = padStart2 (show_nat m) @ js ''-'' @ padStart2 (show_nat d),
                 slug = show_nat y @ js ''-'' @ padStart2 (show_nat m) @ js ''-'' @ padStart2 (show_nat d) \<rparr>,
       markdown = text, html = [] \<rparr>"

definition two_entries :: "entry list" where
  "two_entries = [entry_of 2023 3 5 text_a, entry_of 2023 4 10 text_b]"

definition threshold_entries :: "entry list" where
  "threshold_entries = map (\<lambda>d. entry_of 2023 3 d text_a) [5, 6, 7, 8, 9] @ [entry_of 2023 4 10 text_b]"

definition hot_entries :: "entry list" where
  "hot_entries = [entry_of 2023 3 5 text_b, entry_of 2023 4 6 text_a, entry_of 2023 4 7 text_a,
     entry_of 2023 5 8 text_a, entry_of 2023 5 9 text_a, entry_of 2023 5 10 text_a]"

definition many_words :: "jsstring list" where
  "many_words = [
     js ''qa'', js ''qb'', js ''qc'', js ''qd'', js ''qe'', js ''qf'', js ''qg'',
     js ''qh'', js ''qi'', js ''qj'', js ''qk'', js ''ql'', js ''qm'', js ''qn'',
     js ''qo'', js ''qp'', js ''qq'', js ''qr'', js ''qs'', js ''qt'', js ''qu'',
     js ''qv'', js ''qw'', js ''qx'', js ''qy'', js ''qz'', js ''xa'', js ''xb'',
     js ''xc'', js ''xd'', js ''xe'', js ''xf'', js ''xg'', js ''xh'', js ''xi'',
     js ''xj'', js ''xk'', js ''xl'', js ''xm'', js ''xn'', js ''xo'', js ''xp'',
     js ''xq'', js ''xr'', js ''xs'', js ''xt'', js ''xu'', js ''xv'', js ''xw'',
     js ''xx'', js ''xy'']"

definition many_text :: jsstring where
  "many_text = js ''qa qb qc qd qe qf qg qh qi qj qk ql qm ''
     @ js ''qn qo qp qq qr qs qt qu qv qw qx qy qz ''
     @ js ''xa xb xc xd xe xf xg xh xi xj xk xl xm ''
     @ js ''xn xo xp xq xr xs xt xu xv xw xx xy''"

definition cap_entries :: "entry list" where
  "cap_entries = entry_of 2023 3 31 text_b
     # map (\<lambda>d. entry_of 2023 4 d many_text) [1, 2, 3, 4, 5, 6, 7, 8, 9, 10]"

section \<open>Evaluation rules\<close>

lemmas char_defs = js_def cu_def nl_def is_space_def is_digit_def is_upper_def is_lower_def
  is_word_def canon_def any_char_def ch_def ch_i_def

lemmas rx_defs = dec_def word_before_def word_after_def rx_test_def star_def plus_q_def opt_def
  lit_def lit_i_def rx_mustdo_def rx_bullet_def rx_numbered_def rx_checkbox_def rx_blank_def
  rx_wikilink_def rx_linkto_def rx_closer_def rx_100days_def rx_blank_run_def

lemmas clean_defs = slice_def trim_def is_header_def is_list_or_blank_def is_footer_def
  cleanJournalMarkdown_def cleanTopAndBottom_def Let_def

lemmas token_defs = tokenizeForWordCount_def rx_fence_def rx_inline_code_def rx_image_def
  rx_link_def rx_apostrophe_def rx_non_word_def rx_spaces_def to_lower_def toLowerCase_def
  rx_split_def wordsWithoutStopwords_def STOPWORDS_def filtered_tokens_def

section \<open>The two copies of the normalizer\<close>

lemma top_skip_eq: "top_skip ls j = skip_list ls j"
  by (induction ls arbitrary: j) (simp_all add: is_list_or_blank_def)

lemma top_start_eq: "top_start ls i = find_start ls i"
  by (induction ls arbitrary: i) (simp_all add: is_header_def top_skip_eq)

lemma bottom_end_eq: "bottom_end ls i = find_end ls i"
  by (induction ls arbitrary: i) (simp_all add: is_footer_def)

lemma clean_copies: "cleanTopAndBottom t = cleanJournalMarkdown t"
  by (simp add: cleanTopAndBottom_def cleanJournalMarkdown_def top_start_eq bottom_end_eq)

text \<open>
  Claim C10. \<open>cleanTopAndBottom\<close> of the clean script and \<open>cleanJournalMarkdown\<close> of the build
  script return the same string on every input.
\<close>

theorem normalizers_equal: "cleanTopAndBottom t = cleanJournalMarkdown t"
proof -
  let ?lines = "split_nl t"
  have start: "top_start ?lines 0 = find_start ?lines 0"
    by (rule top_start_eq)
  have "bottom_end (drop (find_start ?lines 0) ?lines) (find_start ?lines 0)
      = find_end (drop (find_start ?lines 0) ?lines) (find_start ?lines 0)"
    by (rule bottom_end_eq)
  then show ?thesis
    unfolding cleanTopAndBottom_def cleanJournalMarkdown_def Let_def start by simp
qed

section \<open>The normalizer on the documented example\<close>


lemma example_lines:
  "split_nl example_entry
     = [js ''## Must Do's'', js ''- [ ] task'', [], js ''Body text here.'', [],
        js ''[[link to]]'', js ''footer junk'']"
  by (simp add: example_entry_def char_defs)

lemma example_start: "find_start (split_nl example_entry) 0 = 3"
  unfolding example_lines by (simp add: char_defs rx_defs clean_defs)

lemma example_end: "find_end (drop 3 (split_nl example_entry)) 3 = 5"
  unfolding example_lines by (simp add: char_defs rx_defs clean_defs)

text \<open>
  Claim C4. On the input
  \<^verbatim>\<open>"## Must Do's\n- [ ] task\n\nBody text here.\n\n[[link to]]\nfooter junk"\<close>
  both copies of the normalizer return exactly \<^verbatim>\<open>"Body text here.\n"\<close>: the marker
  line and the list and blank lines after it are skipped (the start index is 3), the text
  from the wiki-link line on is dropped (the end index is 5), there is no run of three
  newlines to collapse, the rest is trimmed and one newline is appended.
\<close>

theorem normalizer_example:
  "cleanJournalMarkdown example_entry = js ''Body text here.'' @ [nl]
   \<and> cleanTopAndBottom example_entry = js ''Body text here.'' @ [nl]"
proof -
  have "slice (split_nl example_entry) 3 5 = [js ''Body text here.'', []]"
    unfolding example_lines by (simp add: slice_def)
  then have "join_nl (slice (split_nl example_entry) 3 5) = js ''Body text here.'' @ [nl]"
    by simp
  moreover have "rx_replace rx_blank_run [nl, nl] None (js ''Body text here.'' @ [nl])
      = js ''Body text here.'' @ [nl]"
    by (simp add: char_defs rx_defs)
  moreover have "trim (js ''Body text here.'' @ [nl]) = js ''Body text here.''"
    by (simp add: trim_def char_defs)
  ultimately have "cleanJournalMarkdown example_entry = js ''Body text here.'' @ [nl]"
    unfolding cleanJournalMarkdown_def Let_def example_start example_end
    by (simp add: char_defs)
  then show ?thesis by (simp add: clean_copies)
qed

section \<open>Lines, trimming and blank runs\<close>






















lemma lead_Nil [simp]: "lead [] = 0"
  by (simp add: lead_def)

















section \<open>Matches in a longer line\<close>















section \<open>Normalizing twice\<close>



lemma find_end_none: "\<forall>l \<in> set ls. \<not> is_footer l \<Longrightarrow> find_end ls i = i + length ls"
  by (induction ls arbitrary: i) simp_all























section \<open>Tokens\<close>

lemma rx_all_suffix: "(q, e) \<in> set (rx_all r p s) \<Longrightarrow> suffix e s"
proof (induction r p s arbitrary: q e rule: rx_all.induct)
  case (3 c r p x xs)
  then show ?case by (auto split: if_splits intro: suffix_ConsI)
next
  case (5 c lo hi r p x xs)
  then show ?case by (auto split: if_splits intro: suffix_ConsI)
next
  case (7 c lo hi r p x xs)
  then show ?case by (auto split: if_splits intro: suffix_ConsI)
qed (auto split: if_splits)

lemma rx_split_go_chars: "set (concat (rx_split_go r acc p s)) \<subseteq> set acc \<union> set s"
proof (induction "length s" arbitrary: acc p s rule: less_induct)
  case less
  show ?case
  proof (cases s)
    case Nil
    then show ?thesis by simp
  next
    case (Cons x xs)
    have step: "set (concat (rx_split_go r acc' (Some x) xs)) \<subseteq> set acc' \<union> set xs" for acc'
      using less [of xs acc' "Some x"] Cons by simp
    show ?thesis
    proof (cases "rx_all r p (x # xs)")
      case Nil
      then show ?thesis using Cons step [of "x # acc"] by auto
    next
      case (Cons qe rest)
      obtain q e where qe: "qe = (q, e)" by (cases qe)
      have "(q, e) \<in> set (rx_all r p (x # xs))" using Cons qe by simp
      then have sub: "set e \<subseteq> set (x # xs)" using rx_all_suffix set_mono_suffix by blast
      show ?thesis
      proof (cases "length e < length (x # xs)")
        case True
        then have "set (concat (rx_split_go r [] q e)) \<subseteq> set e"
          using less [of e "[]" q] \<open>s = x # xs\<close> by simp
        then show ?thesis
          using True Cons qe sub \<open>s = x # xs\<close> by auto
      next
        case False
        then show ?thesis
          using Cons qe \<open>s = x # xs\<close> step [of "[x]"] by auto
      qed
    qed
  qed
qed

lemma rx_split_chars: "w \<in> set (rx_split r s) \<Longrightarrow> set w \<subseteq> set s"
  using rx_split_go_chars [of r "[]" None s] by (auto simp: rx_split_def split: if_splits)

lemma to_lower_not_upper: "\<not> is_upper (to_lower c)"
  by (simp add: to_lower_def is_upper_def)

lemma to_lower_id: "\<not> is_upper c \<Longrightarrow> to_lower c = c"
  by (simp add: to_lower_def)

lemma tokens_lower:
  assumes "w \<in> set (tokenizeForWordCount text)"
  shows "toLowerCase w = w"
proof -
  from assms obtain s where "w \<in> set (rx_split rx_spaces (toLowerCase s))"
    by (auto simp: tokenizeForWordCount_def Let_def)
  then have "set w \<subseteq> set (toLowerCase s)" by (rule rx_split_chars)
  then have "\<forall>c \<in> set w. \<not> is_upper c"
    using to_lower_not_upper by (auto simp: toLowerCase_def)
  then show ?thesis
    by (simp add: toLowerCase_def to_lower_id map_idI)
qed

text \<open>
  Claim C8. For every text, filtering the tokens of the text gives a subsequence of the
  tokens, in their order: exactly the tokens of length above 1 that are not in the stopword
  set. Every token of the tokenizer is already in lower case, so no stopword appears in
  the result in any case, and a token is what stands between white space after the
  punctuation has been replaced by spaces.
\<close>

theorem stopword_filter:
  "subseq (wordsWithoutStopwords (tokenizeForWordCount text)) (tokenizeForWordCount text)
   \<and> wordsWithoutStopwords (tokenizeForWordCount text)
       = filter (\<lambda>w. 1 < length w \<and> w \<notin> set STOPWORDS) (tokenizeForWordCount text)
   \<and> list_all (\<lambda>w. 1 < length w \<and> w \<notin> set STOPWORDS \<and> toLowerCase w = w)
        (wordsWithoutStopwords (tokenizeForWordCount text))"
proof -
  have "list_all (\<lambda>w. toLowerCase w = w) (tokenizeForWordCount text)"
    using tokens_lower by (simp add: list_all_iff)
  then show ?thesis
    by (auto simp: wordsWithoutStopwords_def list_all_iff)
qed

text \<open>
  A text with a stopword in three spellings and next to punctuation: all of them become the
  token \<open>the\<close> and are filtered, as are the one-letter tokens.
\<close>

theorem stopword_filter_witness:
  "tokenizeForWordCount text_c
     = [js ''the'', js ''the'', js ''the'', js ''a'', js ''i'', js ''x'', js ''ok'', js ''don't'',
        js ''done'']
   \<and> wordsWithoutStopwords (tokenizeForWordCount text_c) = [js ''ok'', js ''don't'']"
proof -
  have t: "tokenizeForWordCount text_c
     = [js ''the'', js ''the'', js ''the'', js ''a'', js ''i'', js ''x'', js ''ok'', js ''don't'',
        js ''done'']"
    by (simp add: text_c_def char_defs rx_defs clean_defs token_defs)
  have "wordsWithoutStopwords (tokenizeForWordCount text_c)
      = filter (\<lambda>w. 1 < length w \<and> w \<notin> set STOPWORDS) (tokenizeForWordCount text_c)"
    using stopword_filter [of text_c] by blast
  then show ?thesis unfolding t by (simp add: STOPWORDS_def char_defs)
qed

section \<open>Insertion-ordered maps and counting\<close>

lemma map_of_map_set: "map_of (map_set k v m) = (map_of m)(k \<mapsto> v)"
  by (induction m) (auto simp: fun_eq_iff)

lemma set_keys_map_set: "fst ` set (map_set k v m) = insert k (fst ` set m)"
  by (simp add: dom_map_of_conv_image_fst [symmetric] map_of_map_set)

lemma distinct_map_set: "distinct (map fst m) \<Longrightarrow> distinct (map fst (map_set k v m))"
  by (induction m) (auto simp: set_keys_map_set)

lemma in_map_set: "(k', a) \<in> set (map_set k v m) \<Longrightarrow> (k', a) \<in> set m \<or> (k' = k \<and> a = v)"
  by (induction m) (auto split: if_splits)

lemma map_get0_map_set: "map_get0 (map_set k v m) k' = (if k' = k then v else map_get0 m k')"
  by (simp add: map_get0_def map_of_map_set)

lemma fst_count_word: "fst (count_word y st w) = map_set w (Suc (map_get0 (fst st) w)) (fst st)"
  by (simp add: count_word_def Let_def)

lemma fst_count_words:
  "fst (foldl (count_word y) st ws) = foldl (\<lambda>m w. map_set w (Suc (map_get0 m w)) m) (fst st) ws"
  by (induction ws arbitrary: st) (simp_all add: fst_count_word)

lemma overall_fold:
  "fst (foldl (\<lambda>st e. foldl (count_word (year (meta e))) st (filtered_tokens e)) st es)
     = foldl (\<lambda>m w. map_set w (Suc (map_get0 m w)) m) (fst st) (all_tokens es)"
  by (induction es arbitrary: st) (simp_all add: all_tokens_def fst_count_words)

lemma tally_count:
  "map_get0 (foldl (\<lambda>m w. map_set w (Suc (map_get0 m w)) m) m ws) w = map_get0 m w + count_list ws w"
  by (induction ws arbitrary: m) (simp_all add: map_get0_map_set)

lemma tally_keys:
  "fst ` set (foldl (\<lambda>m w. map_set w (Suc (map_get0 m w)) m) m ws) = fst ` set m \<union> set ws"
  by (induction ws arbitrary: m) (auto simp: set_keys_map_set)

lemma overall_count:
  "map_get0 (fst (buildWordFrequency es)) w = count_list (all_tokens es) w"
  unfolding buildWordFrequency_def overall_fold tally_count by (simp add: map_get0_def)

lemma overall_keys: "fst ` set (fst (buildWordFrequency es)) = set (all_tokens es)"
  by (simp add: buildWordFrequency_def overall_fold tally_keys)

lemma set_set_add: "set (set_add x s) = insert x (set s)"
  by (induction s) auto

lemma set_new_Set_fold: "set (foldl (\<lambda>s x. set_add x s) s xs) = set s \<union> set xs"
  by (induction xs arbitrary: s) (auto simp: set_set_add)

lemma set_new_Set: "set (new_Set xs) = set xs"
  by (simp add: new_Set_def set_new_Set_fold)

lemma distinct_set_add: "distinct s \<Longrightarrow> distinct (set_add x s)"
  by (induction s) (auto simp: set_set_add)

lemma distinct_new_Set_fold: "distinct s \<Longrightarrow> distinct (foldl (\<lambda>s x. set_add x s) s xs)"
  by (induction xs arbitrary: s) (auto simp: distinct_set_add)

lemma distinct_new_Set: "distinct (new_Set xs)"
  by (simp add: new_Set_def distinct_new_Set_fold)

lemma set_monthlyOrder: "set (monthlyOrder es) = ym_key ` set es"
  by (simp add: monthlyOrder_def set_new_Set)

lemma index_fold_Some:
  "map_of (foldl (\<lambda>m (k, i). map_set k i m) m0 ps) k = Some i
    \<Longrightarrow> (k, i) \<in> set ps \<or> map_of m0 k = Some i"
proof (induction ps rule: rev_induct)
  case Nil
  then show ?case by simp
next
  case (snoc p ps)
  then show ?case by (cases p) (auto simp: map_of_map_set split: if_splits)
qed

lemma index_fold_dom:
  "k \<in> fst ` set ps \<Longrightarrow> map_of (foldl (\<lambda>m (k, i). map_set k i m) m0 ps) k \<noteq> None"
proof (induction ps arbitrary: m0 rule: rev_induct)
  case Nil
  then show ?case by simp
next
  case (snoc p ps)
  then show ?case by (cases p) (auto simp: map_of_map_set)
qed

lemma month_index_valid:
  assumes "e \<in> set es"
  shows "\<exists>i < length (monthlyOrder es). map_of (monthIndex es) (ym_key e) = Some i"
proof -
  let ?ks = "monthlyOrder es"
  let ?ps = "zip ?ks [0 ..< length ?ks]"
  have "ym_key e \<in> set ?ks" using assms by (simp add: set_monthlyOrder)
  then have "ym_key e \<in> fst ` set ?ps"
    by (metis length_upt diff_zero list.set_map map_fst_zip)
  then obtain i where i: "map_of (monthIndex es) (ym_key e) = Some i"
    using index_fold_dom [of "ym_key e" ?ps "[]"] by (auto simp: monthIndex_def)
  then have "(ym_key e, i) \<in> set ?ps"
    using index_fold_Some [of "[]" ?ps "ym_key e" i] by (simp add: monthIndex_def)
  then have "i < length ?ks"
    by (metis set_zip_rightD atLeastLessThan_iff set_upt)
  with i show ?thesis by blast
qed

lemma sum_list_bump:
  "i < length arr \<Longrightarrow> sum_list (arr[i := Suc (arr ! i)]) = Suc (sum_list (arr :: nat list))"
  by (induction arr arbitrary: i) (auto split: nat.splits)

lemma count_month_step:
  assumes "rows_ok n m" and "i < n"
  shows "rows_ok n (count_month n (Some i) m w)"
    and "row_sum (count_month n (Some i) m w) w' = row_sum m w' + (if w' = w then 1 else 0)"
    and "fst ` set (count_month n (Some i) m w) = insert w (fst ` set m)"
proof -
  define m1 where "m1 = (if map_of m w = None then map_set w (replicate n 0) m else m)"
  define arr where "arr = (case map_of m1 w of None \<Rightarrow> [] | Some a \<Rightarrow> a)"
  have cm: "count_month n (Some i) m w = map_set w (bump_at arr (Some i)) m1"
    by (simp add: count_month_def m1_def arr_def Let_def)
  have ok1: "rows_ok n m1"
    using assms(1) unfolding m1_def rows_ok_def
    by (auto simp: distinct_map_set dest!: in_map_set)
  have get1: "map_of m1 w = Some arr"
    unfolding arr_def m1_def by (auto simp: map_of_map_set)
  then have "(w, arr) \<in> set m1" by (rule map_of_SomeD)
  then have len: "length arr = n" using ok1 by (auto simp: rows_ok_def)
  have sum1: "row_sum m1 w' = row_sum m w'" for w'
    unfolding m1_def row_sum_def by (auto simp: map_of_map_set)
  have keys1: "fst ` set m1 = insert w (fst ` set m)"
  proof (cases "map_of m w = None")
    case True
    then show ?thesis by (simp add: m1_def set_keys_map_set)
  next
    case False
    then have "w \<in> fst ` set m" by (simp add: map_of_eq_None_iff)
    then show ?thesis using False by (auto simp: m1_def)
  qed
  show "rows_ok n (count_month n (Some i) m w)"
    using ok1 len assms(2) unfolding cm rows_ok_def
    by (auto simp: distinct_map_set bump_at_def dest!: in_map_set)
  show "row_sum (count_month n (Some i) m w) w' = row_sum m w' + (if w' = w then 1 else 0)"
    using get1 len assms(2) sum1 [of w', symmetric]
    by (auto simp: cm row_sum_def map_of_map_set bump_at_def sum_list_bump)
  show "fst ` set (count_month n (Some i) m w) = insert w (fst ` set m)"
    by (simp add: cm set_keys_map_set keys1)
qed

lemma count_month_tokens:
  assumes "rows_ok n m" and "i < n"
  shows "rows_ok n (foldl (count_month n (Some i)) m ws)
    \<and> (\<forall>w. row_sum (foldl (count_month n (Some i)) m ws) w = row_sum m w + count_list ws w)
    \<and> fst ` set (foldl (count_month n (Some i)) m ws) = fst ` set m \<union> set ws"
  using assms
proof (induction ws arbitrary: m)
  case Nil
  then show ?case by simp
next
  case (Cons a ws)
  note st = count_month_step [OF Cons.prems, of a]
  show ?case
    using Cons.IH [OF st(1) Cons.prems(2)] st(2,3) by auto
qed

lemma matrix_fold:
  assumes "rows_ok n m" and "\<forall>e \<in> set xs. \<exists>i < n. idx e = Some i"
  shows "rows_ok n (foldl (\<lambda>m e. foldl (count_month n (idx e)) m (filtered_tokens e)) m xs)
    \<and> (\<forall>w. row_sum (foldl (\<lambda>m e. foldl (count_month n (idx e)) m (filtered_tokens e)) m xs) w
             = row_sum m w + count_list (all_tokens xs) w)
    \<and> fst ` set (foldl (\<lambda>m e. foldl (count_month n (idx e)) m (filtered_tokens e)) m xs)
        = fst ` set m \<union> set (all_tokens xs)"
  using assms
proof (induction xs arbitrary: m)
  case Nil
  then show ?case by (simp add: all_tokens_def)
next
  case (Cons e xs)
  from Cons.prems(2) obtain i where i: "i < n" "idx e = Some i" by auto
  note st = count_month_tokens [OF Cons.prems(1) i(1), of "filtered_tokens e"]
  have rest: "\<forall>e \<in> set xs. \<exists>i < n. idx e = Some i" using Cons.prems(2) by simp
  show ?case
    using Cons.IH [OF conjunct1 [OF st] rest] st i(2)
    by (auto simp: all_tokens_def)
qed

lemma matrix_rows:
  "rows_ok (length (monthlyOrder es)) (perWordMonthCounts es)"
  "row_sum (perWordMonthCounts es) w = count_list (all_tokens es) w"
  "fst ` set (perWordMonthCounts es) = set (all_tokens es)"
proof -
  have ok0: "rows_ok (length (monthlyOrder es)) []" by (simp add: rows_ok_def)
  have valid: "\<forall>e \<in> set es. \<exists>i < length (monthlyOrder es).
      map_of (monthIndex es) (ym_key e) = Some i"
    using month_index_valid by blast
  note m = matrix_fold [OF ok0, of es "\<lambda>e. map_of (monthIndex es) (ym_key e)", OF valid]
  show "rows_ok (length (monthlyOrder es)) (perWordMonthCounts es)"
    using m by (simp add: perWordMonthCounts_def)
  show "row_sum (perWordMonthCounts es) w = count_list (all_tokens es) w"
    using m by (simp add: perWordMonthCounts_def row_sum_def)
  show "fst ` set (perWordMonthCounts es) = set (all_tokens es)"
    using m by (simp add: perWordMonthCounts_def)
qed

lemma matrix_row:
  assumes "(w, arr) \<in> set (perWordMonthCounts es)"
  shows "length arr = length (monthlyOrder es)"
    and "sum_list arr = count_list (all_tokens es) w"
proof -
  have ok: "rows_ok (length (monthlyOrder es)) (perWordMonthCounts es)" by (rule matrix_rows)
  then show "length arr = length (monthlyOrder es)" using assms by (auto simp: rows_ok_def)
  have "map_of (perWordMonthCounts es) w = Some arr"
    using ok assms by (simp add: rows_ok_def)
  then show "sum_list arr = count_list (all_tokens es) w"
    using matrix_rows(2) [of es w] by (simp add: row_sum_def)
qed

text \<open>
  Claim C7. For every word of the per-word-per-month matrix, the length of its series is the
  length of the Month Index, and the sum of its series is the count of the word in the
  overall frequency table (in which the word is present).
\<close>

theorem matrix_alignment:
  "\<forall>(w, arr) \<in> set (perWordMonthCounts es).
      length arr = length (monthlyOrder es)
      \<and> sum_list arr = map_get0 (fst (buildWordFrequency es)) w
      \<and> map_of (fst (buildWordFrequency es)) w = Some (sum_list arr)"
proof -
  have "map_of (fst (buildWordFrequency es)) w = Some (sum_list arr)"
    if "(w, arr) \<in> set (perWordMonthCounts es)" for w arr
  proof -
    have "w \<in> fst ` set (perWordMonthCounts es)" using that by force
    then have "w \<in> fst ` set (fst (buildWordFrequency es))"
      by (simp add: matrix_rows(3) overall_keys)
    then obtain c where c: "map_of (fst (buildWordFrequency es)) w = Some c"
      by (metis domD dom_map_of_conv_image_fst)
    then have "c = count_list (all_tokens es) w"
      using overall_count [of es w] by (simp add: map_get0_def)
    then show ?thesis using c matrix_row(2) [OF that] by simp
  qed
  then show ?thesis
    using matrix_row(1) by (auto simp: map_get0_def)
qed

lemma entry_of_sel:
  "year (meta (entry_of y m d t)) = y" "month (meta (entry_of y m d t)) = m"
  "markdown (entry_of y m d t) = t"
  by (simp_all add: entry_of_def)

lemma tokens_a: "filtered_tokens (entry_of y m d text_a) = [js ''focus'', js ''focus'', js ''plan'']"
  by (simp add: entry_of_sel text_a_def text_b_def char_defs rx_defs clean_defs token_defs)

lemma tokens_b: "filtered_tokens (entry_of y m d text_b) = [js ''plan'', js ''focus'']"
  by (simp add: entry_of_sel text_a_def text_b_def char_defs rx_defs clean_defs token_defs)

lemma tokens_c: "filtered_tokens (entry_of y m d text_c) = [js ''ok'', js ''don't'']"
  by (simp add: entry_of_sel text_c_def char_defs rx_defs clean_defs token_defs)

lemma month_keys:
  "ym_key (entry_of 2023 3 d t) = js ''2023-03''" "ym_key (entry_of 2023 4 d t) = js ''2023-04''"
  "ym_key (entry_of 2023 5 d t) = js ''2023-05''"
  by (simp_all add: entry_of_sel ym_key_def padStart2_def show_nat.simps char_defs)

lemma two_keys: "ym_key (entry_of 2023 3 5 t) = js ''2023-03''" "ym_key (entry_of 2023 4 10 t) = js ''2023-04''"
  by (simp_all add: entry_of_sel ym_key_def padStart2_def show_nat.simps char_defs)

lemma two_months: "monthlyOrder two_entries = [js ''2023-03'', js ''2023-04'']"
  by (simp add: two_entries_def monthlyOrder_def new_Set_def two_keys char_defs)

lemma two_index: "monthIndex two_entries = [(js ''2023-03'', 0), (js ''2023-04'', 1)]"
  by (simp add: monthIndex_def two_months char_defs upt_rec)

lemma two_matrix: "perWordMonthCounts two_entries = [(js ''focus'', [2, 1]), (js ''plan'', [1, 1])]"
  unfolding perWordMonthCounts_def two_months two_index
  by (simp add: two_entries_def tokens_a tokens_b two_keys count_month_def bump_at_def char_defs)

lemma two_freq: "buildWordFrequency two_entries = ([(js ''focus'', 3), (js ''plan'', 2)], [(2023, [(js ''focus'', 3), (js ''plan'', 2)])])"
  by (simp add: buildWordFrequency_def two_entries_def tokens_a tokens_b count_word_def map_get0_def char_defs entry_of_sel)

text \<open>
  Two entries in two months: both words have a series of length 2 whose sum is the overall
  count.
\<close>

theorem matrix_alignment_witness:
  "perWordMonthCounts two_entries = [(js ''focus'', [2, 1]), (js ''plan'', [1, 1])]
   \<and> length (monthlyOrder two_entries) = 2
   \<and> map_of (fst (buildWordFrequency two_entries)) (js ''focus'') = Some (sum_list [2, 1])
   \<and> map_of (fst (buildWordFrequency two_entries)) (js ''plan'') = Some (sum_list [1, 1])"
  using matrix_alignment [of two_entries] by (simp add: two_matrix two_months)

lemma count_month_cell:
  assumes "rows_ok n m" and "j < n" and "i < n"
  shows "cell (count_month n (Some j) m w) w' i
       = cell m w' i + (if w' = w \<and> i = j then 1 else 0)"
proof -
  define m1 where "m1 = (if map_of m w = None then map_set w (replicate n 0) m else m)"
  define arr where "arr = (case map_of m1 w of None \<Rightarrow> [] | Some a \<Rightarrow> a)"
  have cm: "count_month n (Some j) m w = map_set w (bump_at arr (Some j)) m1"
    by (simp add: count_month_def m1_def arr_def Let_def)
  have get1: "map_of m1 w = Some arr"
    unfolding arr_def m1_def by (auto simp: map_of_map_set)
  have "length a = n" if "(k, a) \<in> set m1" for k a
    using that assms(1) unfolding m1_def rows_ok_def by (auto dest!: in_map_set split: if_splits)
  then have len: "length arr = n" using get1 map_of_SomeD by fastforce
  have c1: "cell m1 w' i = cell m w' i"
    using assms(3) unfolding m1_def cell_def by (auto simp: map_of_map_set)
  show ?thesis
    using get1 len assms(2,3) c1 [symmetric]
    by (auto simp: cm cell_def map_of_map_set bump_at_def)
qed

lemma count_month_cells:
  assumes "rows_ok n m" and "j < n" and "i < n"
  shows "cell (foldl (count_month n (Some j)) m ws) w i
       = cell m w i + (if i = j then count_list ws w else 0)"
  using assms(1)
proof (induction ws arbitrary: m)
  case Nil
  then show ?case by simp
next
  case (Cons a ws)
  have ok: "rows_ok n (count_month n (Some j) m a)"
    using Cons.prems assms(2) by (rule count_month_step(1))
  show ?case
    using Cons.IH [OF ok] count_month_cell [OF Cons.prems assms(2,3), of a w] by auto
qed

lemma matrix_cells_fold:
  assumes "rows_ok n m" and "\<forall>e \<in> set xs. \<exists>j < n. idx e = Some j" and "i < n"
  shows "cell (foldl (\<lambda>m e. foldl (count_month n (idx e)) m (filtered_tokens e)) m xs) w i
       = cell m w i + count_list (index_tokens idx xs i) w"
  using assms(1,2)
proof (induction xs arbitrary: m)
  case Nil
  then show ?case by (simp add: index_tokens_def)
next
  case (Cons e xs)
  from Cons.prems(2) obtain j where j: "j < n" "idx e = Some j" by auto
  have ok: "rows_ok n (foldl (count_month n (Some j)) m (filtered_tokens e))"
    using count_month_tokens [OF Cons.prems(1) j(1)] by blast
  have rest: "\<forall>e \<in> set xs. \<exists>j < n. idx e = Some j" using Cons.prems(2) by simp
  show ?case
    using Cons.IH [OF ok rest] count_month_cells [OF Cons.prems(1) j(1) assms(3), of "filtered_tokens e" w] j(2)
    by (auto simp: index_tokens_def)
qed

lemma matrix_cell:
  assumes "(w, arr) \<in> set (perWordMonthCounts es)" and "i < length (monthlyOrder es)"
  shows "arr ! i
     = count_list (index_tokens (\<lambda>e. map_of (monthIndex es) (ym_key e)) es i) w"
proof -
  have ok0: "rows_ok (length (monthlyOrder es)) []" by (simp add: rows_ok_def)
  have valid: "\<forall>e \<in> set es. \<exists>j < length (monthlyOrder es).
      map_of (monthIndex es) (ym_key e) = Some j"
    using month_index_valid by blast
  have "cell (perWordMonthCounts es) w i
      = count_list (index_tokens (\<lambda>e. map_of (monthIndex es) (ym_key e)) es i) w"
    unfolding perWordMonthCounts_def
    using matrix_cells_fold [OF ok0 valid assms(2), of w] by (simp add: cell_def)
  moreover have "map_of (perWordMonthCounts es) w = Some arr"
    using matrix_rows(1) [of es] assms(1) by (simp add: rows_ok_def)
  ultimately show ?thesis by (simp add: cell_def)
qed

section \<open>The order of the entries\<close>

lemma map_of_via_get0:
  "map_of t k = (if k \<in> fst ` set t then Some (map_get0 t k) else None)"
  by (cases "map_of t k") (auto simp: map_get0_def map_of_eq_None_iff dest: map_of_SomeD intro: rev_image_eqI)

lemma tally_get:
  "map_get0 (foldl (\<lambda>m x. map_set (f x) (map_get0 m (f x) + g x) m) m xs) k
     = map_get0 m k + sum_list (map g (filter (\<lambda>x. f x = k) xs))"
  by (induction xs arbitrary: m) (simp_all add: map_get0_map_set)

lemma tally_dom:
  "fst ` set (foldl (\<lambda>m x. map_set (f x) (map_get0 m (f x) + g x) m) m xs)
     = fst ` set m \<union> f ` set xs"
  by (induction xs arbitrary: m) (auto simp: set_keys_map_set)

lemma tally_distinct:
  "distinct (map fst m)
    \<Longrightarrow> distinct (map fst (foldl (\<lambda>m x. map_set (f x) (map_get0 m (f x) + g x) m) m xs))"
  by (induction xs arbitrary: m) (simp_all add: distinct_map_set)

lemma sum_filter_perm:
  assumes "mset xs = mset ys"
  shows "sum_list (map g (filter P xs)) = sum_list (map (g :: 'a \<Rightarrow> nat) (filter P ys))"
proof -
  have "mset (map g (filter P xs)) = mset (map g (filter P ys))"
    using assms by simp
  then show ?thesis by (metis sum_mset_sum_list)
qed

lemma tally_perm:
  assumes "mset xs = mset ys"
  shows "map_of (foldl (\<lambda>m x. map_set (f x) (map_get0 m (f x) + g x) m) [] xs)
       = map_of (foldl (\<lambda>m x. map_set (f x) (map_get0 m (f x) + g x) m) [] ys)"
proof -
  have "set xs = set ys" using assms by (rule mset_eq_setD)
  then show ?thesis
    by (auto simp: fun_eq_iff map_of_via_get0 tally_dom tally_get sum_filter_perm [OF assms])
qed

lemma filter_key_unique:
  "distinct (map fst m) \<Longrightarrow> kv \<in> set m \<Longrightarrow> filter (\<lambda>x. fst kv = fst x) m = [kv]"
proof (induction m)
  case Nil
  then show ?case by simp
next
  case (Cons a m)
  show ?case
  proof (cases "kv = a")
    case True
    have "filter (\<lambda>x. fst a = fst x) m = []"
      using Cons.prems(1) by (auto simp: filter_empty_conv intro: rev_image_eqI)
    then show ?thesis using True by simp
  next
    case False
    then have "kv \<in> set m" using Cons.prems(2) by simp
    then have "fst kv \<noteq> fst a" using Cons.prems(1) by (auto intro: rev_image_eqI)
    then show ?thesis using Cons \<open>kv \<in> set m\<close> by simp
  qed
qed

lemma sort_key_fst_unique:
  assumes "distinct (map fst A)" and "distinct (map fst B)" and "map_of A = map_of B"
  shows "sort_key fst A = sort_key fst B"
proof (rule properties_for_sort_key)
  have "set A = set B" using assms by (simp add: map_of_inject_set)
  moreover have "distinct A" "distinct B" using assms(1,2) by (simp_all add: distinct_map)
  ultimately show ms: "mset (sort_key fst B) = mset A"
    by (simp add: set_eq_iff_mset_eq_distinct)
  show "sorted (map fst (sort_key fst B))" by simp
  fix k assume k: "k \<in> set (sort_key fst B)"
  then have "k \<in> set A" "k \<in> set B" using \<open>set A = set B\<close> by simp_all
  have "distinct (map fst (sort_key fst B))"
    using assms(2) by (metis distinct_map distinct_sort set_sort)
  then show "filter (\<lambda>x. fst k = fst x) (sort_key fst B) = filter (\<lambda>x. fst k = fst x) A"
    using k \<open>k \<in> set A\<close> assms(1) by (simp add: filter_key_unique)
qed

lemma byYear_perm:
  assumes "mset es' = mset es"
  shows "aggregateCountsByYear (getWordCountsPerEntry es')
       = aggregateCountsByYear (getWordCountsPerEntry es)"
proof -
  have "mset (getWordCountsPerEntry es') = mset (getWordCountsPerEntry es)"
    using assms by (simp add: getWordCountsPerEntry_def)
  then show ?thesis
    unfolding aggregateCountsByYear_def
    by (intro sort_key_fst_unique tally_distinct tally_perm) simp_all
qed

lemma perMonth_perm:
  assumes "mset es' = mset es"
  shows "perMonth es' = perMonth es"
  unfolding perMonth_def
  by (intro sort_key_fst_unique tally_distinct tally_perm assms) simp_all

lemma mset_concat_map_perm:
  assumes "mset xs = mset ys"
  shows "mset (concat (map f xs)) = mset (concat (map f ys))"
proof -
  have "mset (map (\<lambda>x. mset (f x)) xs) = mset (map (\<lambda>x. mset (f x)) ys)"
    using assms by simp
  then have "sum_list (map (\<lambda>x. mset (f x)) xs) = sum_list (map (\<lambda>x. mset (f x)) ys)"
    by (metis sum_mset_sum_list)
  then show ?thesis by (simp add: mset_concat comp_def)
qed

lemma all_tokens_perm: "mset es' = mset es \<Longrightarrow> mset (all_tokens es') = mset (all_tokens es)"
  unfolding all_tokens_def by (rule mset_concat_map_perm)

lemma count_list_mset: "mset xs = mset ys \<Longrightarrow> count_list xs w = count_list ys w"
  by (metis count_mset)

lemma overall_perm:
  assumes "mset es' = mset es"
  shows "map_of (fst (buildWordFrequency es')) = map_of (fst (buildWordFrequency es))"
proof -
  have m: "mset (all_tokens es') = mset (all_tokens es)" using assms by (rule all_tokens_perm)
  then have "set (all_tokens es') = set (all_tokens es)" by (rule mset_eq_setD)
  then show ?thesis
    by (auto simp: fun_eq_iff map_of_via_get0 overall_keys overall_count count_list_mset [OF m])
qed

lemma map_set_twice: "map_set k v (map_set k u m) = map_set k v m"
  by (induction m) auto

lemma snd_count_word:
  "snd (count_word y st w)
     = map_set y (map_set w (Suc (map_get0 (case map_of (snd st) y of None \<Rightarrow> [] | Some t \<Rightarrow> t) w))
                   (case map_of (snd st) y of None \<Rightarrow> [] | Some t \<Rightarrow> t)) (snd st)"
  by (auto simp: count_word_def Let_def map_of_map_set map_set_twice split: option.splits)

lemma map_set_nonempty: "map_set k v m \<noteq> []"
  by (cases m) (auto split: if_splits)

lemma count_word_step:
  "ycount (snd (count_word y st w)) y' w'
     = ycount (snd st) y' w' + (if y' = y \<and> w' = w then 1 else 0)"
  "ykeys (snd (count_word y st w)) y' = ykeys (snd st) y' \<union> (if y' = y then {w} else {})"
  "yrows (snd st) \<Longrightarrow> yrows (snd (count_word y st w))"
  unfolding snd_count_word ycount_def ykeys_def yrows_def
  by (auto simp: map_of_map_set map_get0_map_set set_keys_map_set map_set_nonempty map_get0_def
      split: option.splits)

lemma count_words_step:
  "ycount (snd (foldl (count_word y) st ws)) y' w'
     = ycount (snd st) y' w' + (if y' = y then count_list ws w' else 0)"
  "ykeys (snd (foldl (count_word y) st ws)) y' = ykeys (snd st) y' \<union> (if y' = y then set ws else {})"
  "yrows (snd st) \<Longrightarrow> yrows (snd (foldl (count_word y) st ws))"
  by (induction ws arbitrary: st) (auto simp: count_word_step)

lemma perYear_fold:
  "ycount (snd (foldl (\<lambda>st e. foldl (count_word (year (meta e))) st (filtered_tokens e)) st es)) y w
     = ycount (snd st) y w + count_list (year_tokens es y) w"
  "ykeys (snd (foldl (\<lambda>st e. foldl (count_word (year (meta e))) st (filtered_tokens e)) st es)) y
     = ykeys (snd st) y \<union> set (year_tokens es y)"
  "yrows (snd st)
    \<Longrightarrow> yrows (snd (foldl (\<lambda>st e. foldl (count_word (year (meta e))) st (filtered_tokens e)) st es))"
  by (induction es arbitrary: st) (auto simp: count_words_step year_tokens_def)

lemma perYear_char:
  "ycount (snd (buildWordFrequency es)) y w = count_list (year_tokens es y) w"
  "ykeys (snd (buildWordFrequency es)) y = set (year_tokens es y)"
  "yrows (snd (buildWordFrequency es))"
proof -
  have y0: "yrows (snd (([], []) :: freq \<times> (nat \<times> freq) list))"
    by (simp add: yrows_def)
  show "ycount (snd (buildWordFrequency es)) y w = count_list (year_tokens es y) w"
    unfolding buildWordFrequency_def perYear_fold by (simp add: ycount_def)
  show "ykeys (snd (buildWordFrequency es)) y = set (year_tokens es y)"
    unfolding buildWordFrequency_def perYear_fold by (simp add: ykeys_def)
  show "yrows (snd (buildWordFrequency es))"
    unfolding buildWordFrequency_def using y0 by (rule perYear_fold(3))
qed

lemma year_table_char:
  "map_option map_of (map_of (snd (buildWordFrequency es)) y)
     = (if year_tokens es y = [] then None
        else Some (\<lambda>w. if w \<in> set (year_tokens es y)
                        then Some (count_list (year_tokens es y) w) else None))"
proof (cases "map_of (snd (buildWordFrequency es)) y")
  case None
  then have "set (year_tokens es y) = {}"
    using perYear_char(2) [of es y] by (simp add: ykeys_def)
  then show ?thesis using None by simp
next
  case (Some t)
  then have "t \<noteq> []" using perYear_char(3) [of es] by (auto simp: yrows_def)
  moreover have k: "fst ` set t = set (year_tokens es y)"
    using perYear_char(2) [of es y] Some by (simp add: ykeys_def)
  ultimately have ne: "year_tokens es y \<noteq> []" by auto
  have "map_get0 t w = count_list (year_tokens es y) w" for w
    using perYear_char(1) [of es y w] Some by (simp add: ycount_def)
  then have "map_of t = (\<lambda>w. if w \<in> set (year_tokens es y)
      then Some (count_list (year_tokens es y) w) else None)"
    by (auto simp: fun_eq_iff map_of_via_get0 k)
  then show ?thesis using Some ne by simp
qed

lemma year_tokens_perm:
  "mset es' = mset es \<Longrightarrow> mset (year_tokens es' y) = mset (year_tokens es y)"
  unfolding year_tokens_def by (rule mset_concat_map_perm) simp

lemma perYear_perm:
  assumes "mset es' = mset es"
  shows "map_option map_of (map_of (snd (buildWordFrequency es')) y)
       = map_option map_of (map_of (snd (buildWordFrequency es)) y)"
proof -
  have m: "mset (year_tokens es' y) = mset (year_tokens es y)"
    using assms by (rule year_tokens_perm)
  then have s: "set (year_tokens es' y) = set (year_tokens es y)" by (rule mset_eq_setD)
  then have e: "year_tokens es' y = [] \<longleftrightarrow> year_tokens es y = []" by (metis set_empty)
  show ?thesis
    unfolding year_table_char using s e count_list_mset [OF m] by (auto simp: fun_eq_iff)
qed

text \<open>
  Claim C6. For every list of entries and every permutation of it, the sequence of per-year
  totals and the sequence of per-month totals are the same lists, and the overall frequency
  table and the frequency table of every year are the same mappings from words to counts
  (a year has a table for one list exactly when it has one for the other). The tables are
  compared as mappings, which is what a frequency table is; the order in which the
  underlying \<^verbatim>\<open>Map\<close> iterates follows the entries.
\<close>

theorem aggregation_order_independent:
  assumes "mset es' = mset es"
  shows "aggregateCountsByYear (getWordCountsPerEntry es')
           = aggregateCountsByYear (getWordCountsPerEntry es)
     \<and> perMonth es' = perMonth es
     \<and> map_of (fst (buildWordFrequency es')) = map_of (fst (buildWordFrequency es))
     \<and> (\<forall>y. map_option map_of (map_of (snd (buildWordFrequency es')) y)
            = map_option map_of (map_of (snd (buildWordFrequency es)) y))"
  using assms byYear_perm perMonth_perm overall_perm perYear_perm by blast

lemma two_rev: "mset (rev two_entries) = mset two_entries"
  by simp

lemma two_by_year:
  "aggregateCountsByYear (getWordCountsPerEntry two_entries) = [(2023, 5)]"
  by (simp add: aggregateCountsByYear_def getWordCountsPerEntry_def two_entries_def tokens_a tokens_b
      entry_of_sel map_get0_def)

lemma two_per_month: "perMonth two_entries = [(js ''2023-03'', 3), (js ''2023-04'', 2)]"
  by (simp add: perMonth_def two_entries_def tokens_a tokens_b month_keys map_get0_def char_defs)

lemma two_rev_freq:
  "fst (buildWordFrequency (rev two_entries)) = [(js ''plan'', 2), (js ''focus'', 3)]"
  by (simp add: buildWordFrequency_def two_entries_def tokens_a tokens_b count_word_def map_get0_def
      char_defs entry_of_sel)

text \<open>
  The two entries in both orders: the totals are the same lists; the overall table lists its
  words in a different order and is the same mapping.
\<close>

theorem aggregation_order_witness:
  "mset (rev two_entries) = mset two_entries
   \<and> aggregateCountsByYear (getWordCountsPerEntry (rev two_entries)) = [(2023, 5)]
   \<and> perMonth (rev two_entries) = [(js ''2023-03'', 3), (js ''2023-04'', 2)]
   \<and> fst (buildWordFrequency two_entries) = [(js ''focus'', 3), (js ''plan'', 2)]
   \<and> fst (buildWordFrequency (rev two_entries)) = [(js ''plan'', 2), (js ''focus'', 3)]
   \<and> map_of (fst (buildWordFrequency (rev two_entries))) = map_of (fst (buildWordFrequency two_entries))"
  using aggregation_order_independent [OF two_rev] by (simp add: two_by_year two_per_month two_rev_freq two_freq)

section \<open>Rounding to a double\<close>

text \<open>
  Facts about \<open>fl\<close>: integers below \<open>2^53\<close> are doubles, every double is a multiple of
  \<open>2^-1074\<close>, and so the difference of two different doubles does not round to zero. The
  exponent \<open>expo q\<close> is the one with \<open>2^e \<le> q < 2^(e+1)\<close>, which gives a rule to compute a
  rounding by hand (\<open>fl_eval\<close>).
\<close>

lemma fl_zero: "fl 0 = 0"
  by (simp add: fl_def)

lemma bits_less: "n < 2 ^ k \<Longrightarrow> bits n \<le> k"
proof (induction k arbitrary: n)
  case 0
  then show ?case by (simp add: bits.simps)
next
  case (Suc k)
  show ?case
  proof (cases "n = 0")
    case True
    then show ?thesis by (simp add: bits.simps)
  next
    case False
    have "n div 2 < 2 ^ k" using Suc.prems by simp
    then have "bits (n div 2) \<le> k" by (rule Suc.IH)
    then show ?thesis using False by (subst bits.simps) simp
  qed
qed

lemma bits_upper: "n < 2 ^ bits n"
proof (induction n rule: less_induct)
  case (less n)
  show ?case
  proof (cases "n = 0")
    case True
    then show ?thesis by simp
  next
    case False
    then have "n div 2 < 2 ^ bits (n div 2)" by (intro less) simp
    then have "n < 2 * 2 ^ bits (n div 2)" by linarith
    then show ?thesis using False by (subst bits.simps) simp
  qed
qed

lemma bits_lower: "0 < n \<Longrightarrow> 2 ^ (bits n - 1) \<le> n"
proof (induction n rule: less_induct)
  case (less n)
  show ?case
  proof (cases "n div 2 = 0")
    case True
    then have "n = 1" using less.prems by linarith
    then show ?thesis by (simp add: bits.simps)
  next
    case False
    then have "2 ^ (bits (n div 2) - 1) \<le> n div 2" using less.prems by (intro less.IH) simp_all
    moreover have "0 < bits (n div 2)" using False by (subst bits.simps) simp
    ultimately have "2 ^ bits (n div 2) \<le> 2 * (n div 2)"
      by (cases "bits (n div 2)") simp_all
    then have "2 ^ bits (n div 2) \<le> n" by linarith
    then show ?thesis using less.prems by (subst bits.simps) simp
  qed
qed

lemma round_even_int: "round_even (of_int j) = j"
  by (simp add: round_even_def)

lemma round_even_pos: "1 \<le> m \<Longrightarrow> 1 \<le> round_even m"
proof -
  assume "1 \<le> m"
  then have "1 \<le> \<lfloor>m\<rfloor>" by simp
  then show ?thesis by (simp add: round_even_def Let_def)
qed

lemma expo_le:
  assumes "0 < q"
  shows "2 powi (expo q) \<le> q"
proof (cases "1 \<le> q")
  case True
  let ?n = "nat \<lfloor>q\<rfloor>"
  have n: "0 < ?n" using True by simp
  then have b: "0 < bits ?n" by (subst bits.simps) simp
  have "(2 :: nat) ^ (bits ?n - 1) \<le> ?n" using n by (rule bits_lower)
  then have "(2 :: rat) ^ (bits ?n - 1) \<le> of_nat ?n"
    by (metis of_nat_le_iff of_nat_numeral of_nat_power)
  also have "\<dots> \<le> q" using True by (simp add: of_nat_nat)
  finally have "(2 :: rat) ^ (bits ?n - 1) \<le> q" .
  moreover have "expo q = int (bits ?n - 1)" using True b by (simp add: expo_def)
  ultimately show ?thesis by (simp add: power_int_def)
next
  case False
  let ?N = "\<lceil>1 / q\<rceil>"
  let ?n = "nat (?N - 1)"
  have "1 < 1 / q" using False assms by simp
  then have N: "2 \<le> ?N" by linarith
  have "?n < 2 ^ bits ?n" by (rule bits_upper)
  then have "?N - 1 < 2 ^ bits ?n"
    using N by (metis nat_less_iff of_nat_numeral of_nat_power zero_le_numeral zero_le_power
        diff_ge_0_iff_ge order_trans one_le_numeral)
  then have "?N \<le> 2 ^ bits ?n" by simp
  then have "1 / q \<le> 2 ^ bits ?n"
    by (metis ceiling_le_iff of_int_numeral of_int_power)
  then have "1 / 2 ^ bits ?n \<le> q"
    using assms by (simp add: field_simps)
  moreover have "expo q = - int (bits ?n)" using False by (simp add: expo_def)
  ultimately show ?thesis by (simp add: power_int_minus field_simps)
qed

lemma fl_int:
  assumes "\<bar>k\<bar> < 2 ^ 53"
  shows "fl (of_int k) = of_int k"
proof (cases "k = 0")
  case True
  then show ?thesis by (simp add: fl_zero)
next
  case False
  let ?n = "nat \<bar>k\<bar>"
  have "?n < 2 ^ 53" using assms by (simp add: nat_less_iff)
  then have "bits ?n \<le> 53" by (rule bits_less)
  moreover have "(1 :: rat) \<le> of_int \<bar>k\<bar>" using False by (simp add: of_int_1_le_iff)
  then have e: "expo \<bar>of_int k\<bar> = int (bits ?n) - 1"
    by (simp add: expo_def flip: of_int_abs)
  ultimately have "expo \<bar>of_int k :: rat\<bar> - 52 \<le> 0" by simp
  moreover have "0 \<le> int (bits ?n)" by simp
  ultimately obtain j where u: "max (expo \<bar>of_int k :: rat\<bar> - 52) (- 1074) = - int j"
    by (metis (no_types, opaque_lifting) max.absorb_iff2 max_def neg_0_le_iff_le nonneg_int_cases
        add.inverse_inverse neg_le_iff_le zero_le_numeral order_trans)
  have "\<bar>of_int k :: rat\<bar> / 2 powi (- int j) = of_int (\<bar>k\<bar> * 2 ^ j)"
    by (simp add: power_int_def field_simps)
  then have r: "round_even (\<bar>of_int k :: rat\<bar> / 2 powi (- int j)) = \<bar>k\<bar> * 2 ^ j"
    by (simp only: round_even_int)
  have "fl (of_int k) = sgn (of_int k) * of_int (\<bar>k\<bar> * 2 ^ j) * 2 powi (- int j)"
    using False by (simp add: fl_def Let_def u r)
  also have "\<dots> = sgn (of_int k) * \<bar>of_int k\<bar>"
    by (simp add: power_int_def field_simps)
  also have "\<dots> = of_int k" by (simp add: sgn_mult_abs)
  finally show ?thesis .
qed

lemma fl_numeral: "numeral n < (2 ^ 53 :: int) \<Longrightarrow> fl (numeral n) = numeral n"
  using fl_int [of "numeral n"] by simp

lemma fl_grid: "\<exists>k. fl q = of_int k * 2 powi (- 1074)"
proof (cases "q = 0")
  case True
  then show ?thesis by (simp add: fl_zero)
next
  case False
  define u where "u = max (expo \<bar>q\<bar> - 52) (- 1074)"
  define r where "r = round_even (\<bar>q\<bar> / 2 powi u)"
  have "0 \<le> u + 1074" by (simp add: u_def)
  then obtain j where j: "u = int j - 1074" by (metis nonneg_int_cases add_diff_cancel_right')
  have "(2 :: rat) powi u = 2 ^ j * 2 powi (- 1074)"
    unfolding j by (simp add: power_int_diff power_int_minus field_simps)
  moreover have "fl q = sgn q * of_int r * 2 powi u"
    using False by (simp add: fl_def Let_def u_def r_def)
  moreover obtain s :: int where "sgn q = of_int s"
  proof (cases "0 < q")
    case True
    then show ?thesis using that [of 1] by simp
  next
    case False
    then show ?thesis using that [of "- 1"] \<open>q \<noteq> 0\<close> by (simp add: sgn_if)
  qed
  ultimately have "fl q = of_int (s * r * 2 ^ j) * 2 powi (- 1074)"
    by simp
  then show ?thesis by blast
qed

lemma fl_nonzero:
  assumes "2 powi (- 1074) \<le> \<bar>q\<bar>"
  shows "fl q \<noteq> 0"
proof -
  have q: "q \<noteq> 0" "0 < \<bar>q\<bar>" using assms by (auto simp: power_int_def)
  define u where "u = max (expo \<bar>q\<bar> - 52) (- 1074)"
  have "(2 :: rat) powi u \<le> \<bar>q\<bar>"
  proof (cases "expo \<bar>q\<bar> - 52 \<le> - 1074")
    case True
    then show ?thesis using assms by (simp add: u_def max_def)
  next
    case False
    then have "u = expo \<bar>q\<bar> - 52" by (simp add: u_def)
    then have "(2 :: rat) powi u \<le> 2 powi (expo \<bar>q\<bar>)"
      by (intro power_int_increasing) simp_all
    then show ?thesis using expo_le [OF q(2)] by simp
  qed
  then have "1 \<le> \<bar>q\<bar> / 2 powi u" by (simp add: field_simps)
  then have "1 \<le> round_even (\<bar>q\<bar> / 2 powi u)" by (rule round_even_pos)
  moreover have "fl q = sgn q * of_int (round_even (\<bar>q\<bar> / 2 powi u)) * 2 powi u"
    using q by (simp add: fl_def Let_def u_def)
  ultimately show ?thesis using q by (auto simp: sgn_if)
qed

lemma fl_diff_nonzero:
  assumes "fl a = a" and "fl b = b" and "a \<noteq> b"
  shows "fl (a - b) \<noteq> 0"
proof -
  obtain ka where ka: "a = of_int ka * 2 powi (- 1074)" using fl_grid [of a] assms(1) by auto
  obtain kb where kb: "b = of_int kb * 2 powi (- 1074)" using fl_grid [of b] assms(2) by auto
  have d: "a - b = of_int (ka - kb) * 2 powi (- 1074)"
    by (simp add: ka kb algebra_simps)
  have "ka \<noteq> kb" using assms(3) ka kb by auto
  then have "1 \<le> \<bar>ka - kb\<bar>" by simp
  then have "(1 :: rat) \<le> \<bar>of_int (ka - kb)\<bar>"
    by (metis of_int_1_le_iff of_int_abs)
  then have "(2 :: rat) powi (- 1074) \<le> \<bar>of_int (ka - kb)\<bar> * 2 powi (- 1074)"
    by (simp add: power_int_def)
  also have "\<dots> = \<bar>a - b\<bar>"
    unfolding d by (simp add: abs_mult power_int_def)
  finally show ?thesis by (rule fl_nonzero)
qed

lemma expo_upper:
  assumes "0 < q"
  shows "q < 2 powi (expo q + 1)"
proof (cases "1 \<le> q")
  case True
  let ?n = "nat \<lfloor>q\<rfloor>"
  have "?n < 2 ^ bits ?n" by (rule bits_upper)
  then have "\<lfloor>q\<rfloor> < 2 ^ bits ?n"
    by (metis nat_less_iff of_nat_numeral of_nat_power zero_le_floor assms less_imp_le)
  then have "q < 2 ^ bits ?n"
    by (metis floor_less_iff of_int_numeral of_int_power)
  moreover have "expo q + 1 = int (bits ?n)" using True by (simp add: expo_def)
  ultimately show ?thesis by (simp add: power_int_def)
next
  case False
  let ?N = "\<lceil>1 / q\<rceil>"
  let ?n = "nat (?N - 1)"
  have "1 < 1 / q" using False assms by simp
  then have N: "2 \<le> ?N" by linarith
  then have n: "0 < ?n" by simp
  then have b: "0 < bits ?n" by (subst bits.simps) simp
  have "(2 :: nat) ^ (bits ?n - 1) \<le> ?n" using n by (rule bits_lower)
  then have "(2 :: int) ^ (bits ?n - 1) \<le> ?N - 1"
    using N by (metis int_nat_eq of_nat_le_iff of_nat_numeral of_nat_power diff_ge_0_iff_ge
        order_trans one_le_numeral)
  then have "(2 :: int) ^ (bits ?n - 1) < ?N" by simp
  then have "2 ^ (bits ?n - 1) < 1 / q"
    by (metis less_ceiling_iff of_int_numeral of_int_power)
  then have "q < 1 / 2 ^ (bits ?n - 1)"
    using assms by (simp add: field_simps)
  moreover have "expo q + 1 = - int (bits ?n - 1)" using False b by (simp add: expo_def)
  ultimately show ?thesis by (simp add: power_int_minus field_simps)
qed

lemma expo_unique:
  assumes "2 powi e \<le> q" and "q < 2 powi (e + 1)"
  shows "expo q = e"
proof -
  have q: "0 < q" using assms(1) by (meson less_le_trans zero_less_numeral zero_less_power_int)
  have "(2 :: rat) powi e < 2 powi (expo q + 1)"
    using assms(1) expo_upper [OF q] by simp
  have a: "e < expo q + 1"
  proof (rule ccontr)
    assume "\<not> e < expo q + 1"
    then have "(2 :: rat) powi (expo q + 1) \<le> 2 powi e"
      by (intro power_int_increasing) simp_all
    then show False using \<open>(2 :: rat) powi e < 2 powi (expo q + 1)\<close> by simp
  qed
  have "(2 :: rat) powi (expo q) < 2 powi (e + 1)"
    using assms(2) expo_le [OF q] by simp
  have "expo q < e + 1"
  proof (rule ccontr)
    assume "\<not> expo q < e + 1"
    then have "(2 :: rat) powi (e + 1) \<le> 2 powi (expo q)"
      by (intro power_int_increasing) simp_all
    then show False using \<open>(2 :: rat) powi (expo q) < 2 powi (e + 1)\<close> by simp
  qed
  then show ?thesis using a by simp
qed

lemma round_even_near:
  assumes "\<bar>m - of_int r\<bar> < 1 / 2"
  shows "round_even m = r"
proof -
  have "of_int r - 1 / 2 < m" "m < of_int r + 1 / 2" using assms by linarith+
  then consider "\<lfloor>m\<rfloor> = r" | "\<lfloor>m\<rfloor> = r - 1" by linarith
  then show ?thesis
  proof cases
    case 1
    then show ?thesis using \<open>m < of_int r + 1 / 2\<close> by (simp add: round_even_def Let_def)
  next
    case 2
    then show ?thesis using \<open>of_int r - 1 / 2 < m\<close> by (simp add: round_even_def Let_def)
  qed
qed

lemma fl_eval:
  assumes "2 powi e \<le> q" and "q < 2 powi (e + 1)" and "- 1022 \<le> e"
    and "\<bar>q / 2 powi (e - 52) - of_int r\<bar> < 1 / 2"
  shows "fl q = of_int r * 2 powi (e - 52)"
proof -
  have q: "0 < q" using assms(1) by (meson less_le_trans zero_less_numeral zero_less_power_int)
  have "expo \<bar>q\<bar> = e" using q expo_unique [OF assms(1,2)] by simp
  then have "max (expo \<bar>q\<bar> - 52) (- 1074) = e - 52" using assms(3) by simp
  then show ?thesis using q round_even_near [OF assms(4)] by (simp add: fl_def Let_def)
qed

lemma fl_19_40: "fl (19 / 40) = 4278419646001971 / 2 ^ 53"
  using fl_eval [of "- 2" "19 / 40" 8556839292003942]
  by (simp add: power_int_minus)

lemma fl_y: "fl (44 - 4278419646001971 / 2 ^ 53) = 6125599180665651 / 2 ^ 47"
  using fl_eval [of 5 "44 - 4278419646001971 / 2 ^ 53" 6125599180665651]
  by (simp add: power_int_minus)

lemma fl_minus: "fl (- q) = - fl q"
  by (simp add: fl_def Let_def)

lemma round_even_tie:
  assumes "\<bar>m - of_int r\<bar> \<le> 1 / 2" and "even r"
  shows "round_even m = r"
proof (cases "\<bar>m - of_int r\<bar> < 1 / 2")
  case True
  then show ?thesis by (rule round_even_near)
next
  case False
  then consider "m = of_int r + 1 / 2" | "m = of_int r - 1 / 2" using assms(1) by linarith
  then show ?thesis
  proof cases
    case 1
    then have "\<lfloor>m\<rfloor> = r" by linarith
    then show ?thesis using 1 assms(2) by (simp add: round_even_def Let_def)
  next
    case 2
    then have "\<lfloor>m\<rfloor> = r - 1" by linarith
    then show ?thesis using 2 assms(2) by (simp add: round_even_def Let_def)
  qed
qed

lemma fl_eval_even:
  assumes "2 powi e \<le> q" and "q < 2 powi (e + 1)" and "- 1022 \<le> e"
    and "\<bar>q / 2 powi (e - 52) - of_int r\<bar> \<le> 1 / 2" and "even r"
  shows "fl q = of_int r * 2 powi (e - 52)"
proof -
  have q: "0 < q" using assms(1) by (meson less_le_trans zero_less_numeral zero_less_power_int)
  have "expo \<bar>q\<bar> = e" using q expo_unique [OF assms(1,2)] by simp
  then have "max (expo \<bar>q\<bar> - 52) (- 1074) = e - 52" using assms(3) by simp
  then show ?thesis using q round_even_tie [OF assms(4,5)] by (simp add: fl_def Let_def)
qed

text \<open>
  Two series with the same exact variance \<open>2/9\<close>. The script computes two different
  doubles for them, one unit in the last place apart, so its sort puts \<open>[0, 0, 1]\<close> before
  \<open>[1, 1, 2]\<close>; each rounding step is checked with \<open>fl_eval\<close>.
\<close>

lemma variance_a: "variance [0, 0, 1] = 8006399337547549 / 2 ^ 55"
proof -
  let ?m = "6004799503160661 / 2 ^ 54 :: rat"
  have m: "fl (1 / 3) = ?m"
    using fl_eval [of "- 2" "1 / 3" 6004799503160661] by (simp add: power_int_minus)
  have d1: "fl (?m - 0) = ?m"
    using fl_eval [of "- 2" "?m - 0" 6004799503160661] by (simp add: power_int_minus)
  have e1: "fl (of_nat 0 - ?m) = - ?m"
    using d1 fl_minus [of "?m - 0"] by simp
  let ?q1 = "2001599834386887 / 2 ^ 54 :: rat"
  have q1: "fl (- ?m * - ?m) = ?q1"
    using fl_eval [of "- 4" "- ?m * - ?m" 8006399337547548] by (simp add: power_int_minus)
  have s1: "fl (0 + ?q1) = ?q1"
    using fl_eval [of "- 4" "0 + ?q1" 8006399337547548] by (simp add: power_int_minus)
  let ?s2 = "2001599834386887 / 2 ^ 53 :: rat"
  have s2: "fl (?q1 + ?q1) = ?s2"
    using fl_eval [of "- 3" "?q1 + ?q1" 8006399337547548] by (simp add: power_int_minus)
  let ?d3 = "3002399751580331 / 2 ^ 52 :: rat"
  have d3: "fl (1 - ?m) = ?d3"
    using fl_eval_even [of "- 1" "1 - ?m" 6004799503160662] by (simp add: power_int_minus)
  have e3: "fl (of_nat 1 - ?m) = ?d3"
    using d3 by simp
  let ?q3 = "4003199668773775 / 2 ^ 53 :: rat"
  have q3: "fl (?d3 * ?d3) = ?q3"
    using fl_eval [of "- 2" "?d3 * ?d3" 8006399337547550] by (simp add: power_int_minus)
  have s3: "fl (?s2 + ?q3) = ?d3"
    using fl_eval [of "- 1" "?s2 + ?q3" 6004799503160662] by (simp add: power_int_minus)
  let ?v = "8006399337547549 / 2 ^ 55 :: rat"
  have v: "fl (?d3 / 3) = ?v"
    using fl_eval [of "- 3" "?d3 / 3" 8006399337547549] by (simp add: power_int_minus)
  have len: "of_nat (length ([0, 0, 1 :: nat])) = (3 :: rat)" by simp
  have tot: "of_nat (sum_list ([0, 0, 1 :: nat])) = (1 :: rat)" by simp
  show ?thesis
    unfolding variance_def Let_def len tot
    by (simp only: list.distinct if_False foldl.simps m e1 q1 s1 s2 e3 q3 s3 v)
qed

lemma variance_b: "variance [1, 1, 2] = 2001599834386887 / 2 ^ 53"
proof -
  let ?m = "6004799503160661 / 2 ^ 52 :: rat"
  have m: "fl (4 / 3) = ?m"
    using fl_eval [of 0 "4 / 3" 6004799503160661] by (simp add: power_int_minus)
  let ?d1 = "1501199875790165 / 2 ^ 52 :: rat"
  have d1: "fl (?m - 1) = ?d1"
    using fl_eval [of "- 2" "?m - 1" 6004799503160660] by (simp add: power_int_minus)
  have e1: "fl (of_nat 1 - ?m) = - ?d1"
    using d1 fl_minus [of "?m - 1"] by simp
  let ?q1 = "8006399337547545 / 2 ^ 56 :: rat"
  have q1: "fl (- ?d1 * - ?d1) = ?q1"
    using fl_eval [of "- 4" "- ?d1 * - ?d1" 8006399337547545] by (simp add: power_int_minus)
  have s1: "fl (0 + ?q1) = ?q1"
    using fl_eval [of "- 4" "0 + ?q1" 8006399337547545] by (simp add: power_int_minus)
  let ?s2 = "8006399337547545 / 2 ^ 55 :: rat"
  have s2: "fl (?q1 + ?q1) = ?s2"
    using fl_eval [of "- 3" "?q1 + ?q1" 8006399337547545] by (simp add: power_int_minus)
  let ?d3 = "3002399751580331 / 2 ^ 52 :: rat"
  have d3: "fl (2 - ?m) = ?d3"
    using fl_eval [of "- 1" "2 - ?m" 6004799503160662] by (simp add: power_int_minus)
  have e3: "fl (of_nat 2 - ?m) = ?d3"
    using d3 by simp
  let ?q3 = "4003199668773775 / 2 ^ 53 :: rat"
  have q3: "fl (?d3 * ?d3) = ?q3"
    using fl_eval [of "- 2" "?d3 * ?d3" 8006399337547550] by (simp add: power_int_minus)
  let ?s3 = "6004799503160661 / 2 ^ 53 :: rat"
  have s3: "fl (?s2 + ?q3) = ?s3"
    using fl_eval [of "- 1" "?s2 + ?q3" 6004799503160661] by (simp add: power_int_minus)
  let ?v = "2001599834386887 / 2 ^ 53 :: rat"
  have v: "fl (?s3 / 3) = ?v"
    using fl_eval [of "- 3" "?s3 / 3" 8006399337547548] by (simp add: power_int_minus)
  have len: "of_nat (length ([1, 1, 2 :: nat])) = (3 :: rat)" by simp
  have tot: "of_nat (sum_list ([1, 1, 2 :: nat])) = (4 :: rat)" by simp
  show ?thesis
    unfolding variance_def Let_def len tot
    by (simp only: list.distinct if_False foldl.simps m e1 q1 s1 s2 e3 q3 s3 v)
qed

lemma variance_order: "variance [1, 1, 2] < variance [0, 0, 1]"
  unfolding variance_a variance_b by simp

section \<open>The trend rankings\<close>

lemma set_wordsGte10: "set (wordsGte10 es) = set (candidates es)"
  by (simp add: wordsGte10_def)

lemma in_candidates:
  "(w, s) \<in> set (candidates es)
    \<longleftrightarrow> (\<exists>arr. (w, arr) \<in> set (perWordMonthCounts es) \<and> 10 \<le> sum_list arr \<and> s = drop 1 arr)"
  by (auto simp: candidates_def)

text \<open>
  Claim C1, as the code has it. A word is a candidate of the trend rankings (the list
  \<open>wordsGte10\<close>, which the spiky ranking shows and from which the hottest ranking is taken)
  if and only if it is in the matrix and its occurrences summed over all months of the
  Month Index, the first month included, are at least 10; this sum is its count in the
  overall frequency table. The candidate carries the series without its first month: the
  month is dropped after the test, not before it.
\<close>

theorem occurrence_threshold:
  "((w, s) \<in> set (wordsGte10 es)
      \<longleftrightarrow> (\<exists>arr. (w, arr) \<in> set (perWordMonthCounts es) \<and> 10 \<le> sum_list arr \<and> s = drop 1 arr))
   \<and> (w \<in> fst ` set (wordsGte10 es)
      \<longleftrightarrow> w \<in> fst ` set (perWordMonthCounts es)
          \<and> 10 \<le> map_get0 (fst (buildWordFrequency es)) w)"
proof -
  have a: "(w, s) \<in> set (wordsGte10 es)
      \<longleftrightarrow> (\<exists>arr. (w, arr) \<in> set (perWordMonthCounts es) \<and> 10 \<le> sum_list arr \<and> s = drop 1 arr)" for s
    by (simp add: set_wordsGte10 in_candidates)
  have "w \<in> fst ` set (wordsGte10 es)
      \<longleftrightarrow> (\<exists>arr. (w, arr) \<in> set (perWordMonthCounts es) \<and> 10 \<le> sum_list arr)"
  proof
    assume "w \<in> fst ` set (wordsGte10 es)"
    then obtain s where "(w, s) \<in> set (wordsGte10 es)" by force
    then show "\<exists>arr. (w, arr) \<in> set (perWordMonthCounts es) \<and> 10 \<le> sum_list arr"
      using a by blast
  next
    assume "\<exists>arr. (w, arr) \<in> set (perWordMonthCounts es) \<and> 10 \<le> sum_list arr"
    then obtain arr where "(w, arr) \<in> set (perWordMonthCounts es)" "10 \<le> sum_list arr"
      by blast
    then have "(w, drop 1 arr) \<in> set (wordsGte10 es)" using a by blast
    then show "w \<in> fst ` set (wordsGte10 es)" by force
  qed
  also have "\<dots> \<longleftrightarrow> w \<in> fst ` set (perWordMonthCounts es)
          \<and> 10 \<le> map_get0 (fst (buildWordFrequency es)) w"
    using matrix_row(2) [of w _ es] by (force simp: overall_count)
  finally show ?thesis using a by blast
qed

lemma threshold_months: "monthlyOrder threshold_entries = [js ''2023-03'', js ''2023-04'']"
  by (simp add: threshold_entries_def monthlyOrder_def new_Set_def month_keys char_defs)

lemma threshold_index: "monthIndex threshold_entries = [(js ''2023-03'', 0), (js ''2023-04'', 1)]"
  by (simp add: monthIndex_def threshold_months char_defs upt_rec)

lemma threshold_matrix:
  "perWordMonthCounts threshold_entries = [(js ''focus'', [10, 1]), (js ''plan'', [5, 1])]"
  unfolding perWordMonthCounts_def threshold_months threshold_index
  by (simp add: threshold_entries_def tokens_a tokens_b month_keys count_month_def bump_at_def char_defs)

lemma threshold_words: "wordsGte10 threshold_entries = [(js ''focus'', [1])]"
  by (simp add: wordsGte10_def candidates_def threshold_matrix)

theorem occurrence_threshold_witness:
  "(js ''focus'', [1]) \<in> set (wordsGte10 threshold_entries)
   \<and> (js ''focus'', [10, 1]) \<in> set (perWordMonthCounts threshold_entries)
   \<and> 10 \<le> sum_list [10, 1 :: nat]
   \<and> js ''plan'' \<notin> fst ` set (wordsGte10 threshold_entries)"
  using occurrence_threshold [of "js ''focus''" "[1]" threshold_entries]
  by (simp add: threshold_matrix threshold_words char_defs)

text \<open>
  Six entries: \<open>focus\<close> occurs 10 times in the first month and once in the second. It is a
  candidate, with the series \<open>[1]\<close>, although its occurrences after the first month sum to 1.
\<close>

theorem occurrence_threshold_counterexample:
  "perWordMonthCounts threshold_entries = [(js ''focus'', [10, 1]), (js ''plan'', [5, 1])]
   \<and> wordsGte10 threshold_entries = [(js ''focus'', [1])]
   \<and> \<not> 10 \<le> sum_list (drop 1 [10, 1 :: nat])"
  by (simp add: threshold_matrix threshold_words)

lemma windowN_eq: "windowN n = min 3 (max 1 (n div 8))"
  by (simp add: windowN_def Let_def)

lemma havePrev_eq: "havePrev n \<longleftrightarrow> 2 * windowN n \<le> n"
  by (auto simp: havePrev_def Let_def max_def)

lemma hot_entry_fields:
  "word (hot_entry n (w, s)) = w"
  "series (hot_entry n (w, s)) = s"
  "recent (hot_entry n (w, s)) = sum_list (drop (length s - windowN n) s)"
  "prev (hot_entry n (w, s))
     = (if 2 * windowN n \<le> n
        then sum_list (slice s (length s - 2 * windowN n) (length s - windowN n)) else 0)"
  "delta (hot_entry n (w, s)) = int (recent (hot_entry n (w, s))) - int (prev (hot_entry n (w, s)))"
proof -
  have a: "nat (max 0 (int (length s) - int (windowN n))) = length s - windowN n"
    by linarith
  have b: "nat (max 0 (int (length s) - 2 * int (windowN n))) = length s - 2 * windowN n"
    by linarith
  show "word (hot_entry n (w, s)) = w" "series (hot_entry n (w, s)) = s"
    by (simp_all add: hot_entry_def Let_def)
  show "recent (hot_entry n (w, s)) = sum_list (drop (length s - windowN n) s)"
    by (simp add: hot_entry_def Let_def a)
  show "prev (hot_entry n (w, s))
     = (if 2 * windowN n \<le> n
        then sum_list (slice s (length s - 2 * windowN n) (length s - windowN n)) else 0)"
    by (simp add: hot_entry_def Let_def a b havePrev_eq)
  show "delta (hot_entry n (w, s)) = int (recent (hot_entry n (w, s))) - int (prev (hot_entry n (w, s)))"
    by (simp add: hot_entry_def Let_def)
qed

lemma window_exact: "n = 2 * windowN n \<Longrightarrow> windowN n = 1"
  unfolding windowN_eq by (cases "n < 8") (auto simp: min_def max_def split: if_splits)

lemma prev_window:
  assumes "length s = n - 1"
  shows "prev (hot_entry n (w, s))
     = (if 2 * windowN n \<le> length s
        then sum_list (take (windowN n) (drop (length s - 2 * windowN n) s)) else 0)"
proof (cases "2 * windowN n \<le> length s")
  case True
  then have "2 * windowN n \<le> n" using assms by simp
  moreover have "length s - windowN n - (length s - 2 * windowN n) = windowN n"
    using True by simp
  ultimately show ?thesis using True by (simp add: hot_entry_fields slice_def)
next
  case False
  show ?thesis
  proof (cases "2 * windowN n \<le> n")
    case True
    then have "n = 2 * windowN n" using False assms by simp
    then have "windowN n = 1" by (rule window_exact)
    then show ?thesis using False True by (simp add: hot_entry_fields slice_def)
  next
    case False
    then show ?thesis using \<open>\<not> 2 * windowN n \<le> length s\<close> by (simp add: hot_entry_fields)
  qed
qed

lemma hottest_of_length: "length (hottest_of n ws) \<le> 50"
  by (simp add: hottest_of_def)

lemma hottest_of_sorted: "sorted_wrt (\<lambda>a b. delta b \<le> delta a) (hottest_of n ws)"
proof -
  let ?xs = "sort_key (\<lambda>h. - delta h) (filter (\<lambda>h. delta h > 0) (map (hot_entry n) ws))"
  have "sorted (map (\<lambda>h. - delta h) ?xs)" by (rule sorted_sort_key)
  then have "sorted_wrt (\<lambda>a b. delta b \<le> delta a) ?xs"
    by (simp add: sorted_map)
  then show ?thesis unfolding hottest_of_def by (rule sorted_wrt_take)
qed

lemma hottest_of_sound:
  assumes "h \<in> set (hottest_of n ws)"
  shows "\<exists>c \<in> set ws. h = hot_entry n c \<and> 0 < delta h"
proof -
  have "h \<in> set (sort_key (\<lambda>h. - delta h) (filter (\<lambda>h. delta h > 0) (map (hot_entry n) ws)))"
    using assms unfolding hottest_of_def by (rule in_set_takeD)
  then show ?thesis by auto
qed

lemma hottest_of_complete:
  assumes "c \<in> set ws" and "0 < delta (hot_entry n c)"
  shows "hot_entry n c \<in> set (hottest_of n ws)
    \<or> (length (hottest_of n ws) = 50
        \<and> (\<forall>h \<in> set (hottest_of n ws). delta (hot_entry n c) \<le> delta h))"
proof -
  let ?xs = "sort_key (\<lambda>h. - delta h) (filter (\<lambda>h. delta h > 0) (map (hot_entry n) ws))"
  have x: "hot_entry n c \<in> set ?xs" using assms by simp
  have sp: "?xs = take 50 ?xs @ drop 50 ?xs" by simp
  show ?thesis
  proof (cases "hot_entry n c \<in> set (take 50 ?xs)")
    case True
    then show ?thesis by (simp add: hottest_of_def)
  next
    case False
    then have d: "hot_entry n c \<in> set (drop 50 ?xs)"
      using x by (metis Un_iff sp set_append)
    then have "50 < length ?xs" by (metis drop_all empty_iff list.set(1) not_le_imp_less)
    then have len: "length (take 50 ?xs) = 50" by simp
    have "sorted (map (\<lambda>h. - delta h) ?xs)" by (rule sorted_sort_key)
    then have "sorted (map (\<lambda>h. - delta h) (take 50 ?xs) @ map (\<lambda>h. - delta h) (drop 50 ?xs))"
      by (metis sp map_append)
    then have "\<forall>a \<in> set (map (\<lambda>h. - delta h) (take 50 ?xs)).
        \<forall>b \<in> set (map (\<lambda>h. - delta h) (drop 50 ?xs)). a \<le> b"
      unfolding sorted_append by blast
    then have "\<forall>h \<in> set (take 50 ?xs). - delta h \<le> - delta (hot_entry n c)"
      using d by (metis (no_types, lifting) image_eqI list.set_map)
    then show ?thesis using len by (simp add: hottest_of_def)
  qed
qed

lemma candidate_length:
  assumes "(w, s) \<in> set (wordsGte10 es)"
  shows "length s = length (monthlyOrder es) - 1"
proof -
  from assms obtain arr where "(w, arr) \<in> set (perWordMonthCounts es)" "s = drop 1 arr"
    by (auto simp: set_wordsGte10 in_candidates)
  then show ?thesis using matrix_row(1) by simp
qed

lemma word_hot_entry: "word (hot_entry n c) = fst c"
  by (cases c) (simp add: hot_entry_fields)

lemma candidates_distinct: "distinct (map fst (wordsGte10 es))"
proof -
  have "distinct (map fst (perWordMonthCounts es))"
    using matrix_rows(1) [of es] by (simp add: rows_ok_def)
  then have "distinct (map fst (filter (\<lambda>(w, arr). sum_list arr \<ge> 10) (perWordMonthCounts es)))"
    by (rule distinct_map_filter)
  then have "distinct (map fst (candidates es))"
    by (simp add: candidates_def comp_def case_prod_unfold)
  moreover have "mset (map fst (wordsGte10 es)) = mset (map fst (candidates es))"
    by (simp add: wordsGte10_def)
  ultimately show ?thesis by (metis mset_eq_imp_distinct_iff)
qed

lemma hottest_of_words:
  assumes "distinct (map fst ws)"
  shows "distinct (map word (hottest_of n ws))"
proof -
  let ?f = "filter (\<lambda>h. delta h > 0) (map (hot_entry n) ws)"
  have e: "map word (map (hot_entry n) ws) = map fst ws" by (simp add: word_hot_entry)
  have "distinct (map word (map (hot_entry n) ws))" unfolding e by (rule assms)
  then have "distinct (map word ?f)" by (rule distinct_map_filter)
  moreover have "mset (map word (sort_key (\<lambda>h. - delta h) ?f)) = mset (map word ?f)" by simp
  ultimately have "distinct (map word (sort_key (\<lambda>h. - delta h) ?f))"
    by (metis mset_eq_imp_distinct_iff)
  then have "distinct (take 50 (map word (sort_key (\<lambda>h. - delta h) ?f)))"
    by (rule distinct_take)
  then show ?thesis by (simp add: hottest_of_def take_map)
qed

lemma positive_count:
  assumes "distinct (map fst ws)"
  shows "length (filter (\<lambda>h. delta h > 0) (map (hot_entry n) ws))
    = card {c \<in> set ws. 0 < delta (hot_entry n c)}"
proof -
  have d: "distinct ws" using assms by (simp add: distinct_map)
  have "length (filter (\<lambda>h. delta h > 0) (map (hot_entry n) ws))
      = length (filter (\<lambda>c. 0 < delta (hot_entry n c)) ws)"
    by (simp add: filter_map comp_def)
  also have "\<dots> = card ({c. 0 < delta (hot_entry n c)} \<inter> set ws)"
    using d by (rule distinct_length_filter)
  also have "{c. 0 < delta (hot_entry n c)} \<inter> set ws = {c \<in> set ws. 0 < delta (hot_entry n c)}"
    by blast
  finally show ?thesis .
qed

lemma hottest_of_count:
  assumes "distinct (map fst ws)"
  shows "length (hottest_of n ws) = min 50 (card {c \<in> set ws. 0 < delta (hot_entry n c)})"
  using positive_count [OF assms, of n] by (simp add: hottest_of_def min.commute)

lemma hottest_of_all:
  assumes "distinct (map fst ws)" and "card {c \<in> set ws. 0 < delta (hot_entry n c)} \<le> 50"
  shows "set (hottest_of n ws) = hot_entry n ` {c \<in> set ws. 0 < delta (hot_entry n c)}"
proof -
  let ?xs = "sort_key (\<lambda>h. - delta h) (filter (\<lambda>h. delta h > 0) (map (hot_entry n) ws))"
  have "length ?xs \<le> 50" using positive_count [OF assms(1), of n] assms(2) by simp
  then have "take 50 ?xs = ?xs" by simp
  then have "set (hottest_of n ws) = set ?xs" by (simp add: hottest_of_def)
  also have "\<dots> = hot_entry n ` {c \<in> set ws. 0 < delta (hot_entry n c)}" by auto
  finally show ?thesis .
qed

text \<open>
  Claim C3, as the code has it. With \<open>n\<close> the length of the Month Index and
  \<open>windowN = min 3 (max 1 (n div 8))\<close>: the hottest list has at most 50 entries and is sorted
  by descending delta; every entry is a candidate word with its series, has
  \<open>delta = recent - prev > 0\<close>, where \<open>recent\<close> is the sum of the last \<open>windowN\<close> months of the
  series without its first month and \<open>prev\<close> is the sum of the \<open>windowN\<close> months just before
  them when the series has at least \<open>2 * windowN\<close> months, and 0 otherwise. No word occurs
  twice in the list, and the list has as many entries as there are candidates with a
  positive delta, up to 50. So when there are at most 50 such candidates the list holds
  exactly them; when there are more it holds 50 of them, and a candidate that is left out
  has a delta no larger than that of any entry.
\<close>

theorem hottest_contract:
  "windowN (length (monthlyOrder es)) = min 3 (max 1 (length (monthlyOrder es) div 8))
   \<and> length (hottest es) \<le> 50
   \<and> sorted_wrt (\<lambda>a b. delta b \<le> delta a) (hottest es)
   \<and> (\<forall>h \<in> set (hottest es).
        (word h, series h) \<in> set (wordsGte10 es)
        \<and> h = hot_entry (length (monthlyOrder es)) (word h, series h)
        \<and> 0 < delta h
        \<and> delta h = int (recent h) - int (prev h)
        \<and> recent h = sum_list (drop (length (series h) - windowN (length (monthlyOrder es))) (series h))
        \<and> prev h = (if 2 * windowN (length (monthlyOrder es)) \<le> length (series h)
                    then sum_list (take (windowN (length (monthlyOrder es)))
                           (drop (length (series h) - 2 * windowN (length (monthlyOrder es))) (series h)))
                    else 0))
   \<and> (\<forall>c \<in> set (wordsGte10 es).
        0 < delta (hot_entry (length (monthlyOrder es)) c)
        \<longrightarrow> hot_entry (length (monthlyOrder es)) c \<in> set (hottest es)
            \<or> (length (hottest es) = 50
                \<and> (\<forall>h \<in> set (hottest es). delta (hot_entry (length (monthlyOrder es)) c) \<le> delta h)))
   \<and> distinct (map word (hottest es))
   \<and> length (hottest es)
       = min 50 (card {c \<in> set (wordsGte10 es). 0 < delta (hot_entry (length (monthlyOrder es)) c)})
   \<and> (card {c \<in> set (wordsGte10 es). 0 < delta (hot_entry (length (monthlyOrder es)) c)} \<le> 50
        \<longrightarrow> set (hottest es)
            = hot_entry (length (monthlyOrder es))
                ` {c \<in> set (wordsGte10 es). 0 < delta (hot_entry (length (monthlyOrder es)) c)})"
proof -
  let ?n = "length (monthlyOrder es)"
  have entry: "(word h, series h) \<in> set (wordsGte10 es)
        \<and> h = hot_entry ?n (word h, series h)
        \<and> 0 < delta h
        \<and> delta h = int (recent h) - int (prev h)
        \<and> recent h = sum_list (drop (length (series h) - windowN ?n) (series h))
        \<and> prev h = (if 2 * windowN ?n \<le> length (series h)
                    then sum_list (take (windowN ?n) (drop (length (series h) - 2 * windowN ?n) (series h)))
                    else 0)"
    if "h \<in> set (hottest es)" for h
  proof -
    from that obtain c where c: "c \<in> set (wordsGte10 es)" "h = hot_entry ?n c" "0 < delta h"
      using hottest_of_sound [of h ?n "wordsGte10 es"] by (auto simp: hottest_def)
    obtain w s where ws: "c = (w, s)" by (cases c)
    have len: "length s = ?n - 1" using c(1) ws candidate_length by blast
    show ?thesis
      using c ws prev_window [OF len, of w] by (simp add: hot_entry_fields)
  qed
  have compl: "hot_entry ?n c \<in> set (hottest es)
            \<or> (length (hottest es) = 50
                \<and> (\<forall>h \<in> set (hottest es). delta (hot_entry ?n c) \<le> delta h))"
    if "c \<in> set (wordsGte10 es)" "0 < delta (hot_entry ?n c)" for c
    using hottest_of_complete [OF that] by (simp add: hottest_def)
  note d = candidates_distinct [of es]
  have dist: "distinct (map word (hottest es))"
    unfolding hottest_def using d by (rule hottest_of_words)
  have count: "length (hottest es)
       = min 50 (card {c \<in> set (wordsGte10 es). 0 < delta (hot_entry ?n c)})"
    unfolding hottest_def using d by (rule hottest_of_count)
  have all: "set (hottest es) = hot_entry ?n ` {c \<in> set (wordsGte10 es). 0 < delta (hot_entry ?n c)}"
    if "card {c \<in> set (wordsGte10 es). 0 < delta (hot_entry ?n c)} \<le> 50"
    unfolding hottest_def using d that by (rule hottest_of_all)
  have first: "windowN ?n = min 3 (max 1 (?n div 8))
   \<and> length (hottest es) \<le> 50
   \<and> sorted_wrt (\<lambda>a b. delta b \<le> delta a) (hottest es)"
    using hottest_of_length [of ?n "wordsGte10 es"] hottest_of_sorted [of ?n "wordsGte10 es"]
      windowN_eq [of ?n]
    by (simp add: hottest_def)
  show ?thesis
    using first entry compl dist count all by blast
qed

lemma hot_months: "monthlyOrder hot_entries = [js ''2023-03'', js ''2023-04'', js ''2023-05'']"
  by (simp add: hot_entries_def monthlyOrder_def new_Set_def month_keys char_defs)

lemma hot_index:
  "monthIndex hot_entries = [(js ''2023-03'', 0), (js ''2023-04'', 1), (js ''2023-05'', 2)]"
  by (simp add: monthIndex_def hot_months char_defs upt_rec)

lemma hot_matrix:
  "perWordMonthCounts hot_entries = [(js ''plan'', [1, 2, 3]), (js ''focus'', [1, 4, 6])]"
  unfolding perWordMonthCounts_def hot_months hot_index
  by (simp add: hot_entries_def tokens_a tokens_b month_keys count_month_def bump_at_def char_defs)

lemma hot_words: "wordsGte10 hot_entries = [(js ''focus'', [4, 6])]"
  by (simp add: wordsGte10_def candidates_def hot_matrix)

lemma hot_entry_eval:
  "hot_entry 3 (w, [4, 6]) = \<lparr> word = w, recent = 6, prev = 4, delta = 2, series = [4, 6] \<rparr>"
  by (simp add: hot_entry_def windowN_def havePrev_def slice_def Let_def)

lemma hot_len: "length (monthlyOrder hot_entries) = 3"
  by (simp add: hot_months)

lemma hot_list:
  "hottest hot_entries
     = [\<lparr> word = js ''focus'', recent = 6, prev = 4, delta = 2, series = [4, 6] \<rparr>]"
  unfolding hottest_def hot_len hot_words hottest_of_def by (simp add: hot_entry_eval)

text \<open>
  Six entries over three months: \<open>focus\<close> has the series \<open>[4, 6]\<close> after the first month and
  is the one hot word, with \<open>recent = 6\<close>, \<open>prev = 4\<close> and \<open>delta = 2\<close>.
\<close>

theorem hottest_contract_witness:
  "hottest hot_entries
     = [\<lparr> word = js ''focus'', recent = 6, prev = 4, delta = 2, series = [4, 6] \<rparr>]
   \<and> (js ''focus'', [4, 6]) \<in> set (wordsGte10 hot_entries)
   \<and> windowN (length (monthlyOrder hot_entries)) = 1
   \<and> length (hottest hot_entries) \<le> 50
   \<and> card {c \<in> set (wordsGte10 hot_entries). 0 < delta (hot_entry 3 c)} = 1
   \<and> set (hottest hot_entries)
       = hot_entry 3 ` {c \<in> set (wordsGte10 hot_entries). 0 < delta (hot_entry 3 c)}"
proof -
  let ?h = "\<lparr> word = js ''focus'', recent = 6, prev = 4, delta = 2, series = [4, 6] \<rparr>"
  note c = hottest_contract [of hot_entries]
  have "windowN (length (monthlyOrder hot_entries))
      = min 3 (max 1 (length (monthlyOrder hot_entries) div 8))"
    using c by (rule conjunct1)
  then have w: "windowN (length (monthlyOrder hot_entries)) = 1"
    unfolding hot_len by simp
  have len: "length (hottest hot_entries) \<le> 50"
    using c by blast
  have "\<forall>h \<in> set (hottest hot_entries). (word h, series h) \<in> set (wordsGte10 hot_entries)"
    using c by blast
  moreover have "?h \<in> set (hottest hot_entries)" by (simp add: hot_list)
  ultimately have "(word ?h, series ?h) \<in> set (wordsGte10 hot_entries)" by (rule bspec)
  then have m: "(js ''focus'', [4, 6]) \<in> set (wordsGte10 hot_entries)" by simp
  have "{c \<in> set (wordsGte10 hot_entries). 0 < delta (hot_entry 3 c)} = {(js ''focus'', [4, 6])}"
    by (auto simp: hot_words hot_entry_eval)
  then have k: "card {c \<in> set (wordsGte10 hot_entries). 0 < delta (hot_entry 3 c)} = 1"
    by simp
  have "card {c \<in> set (wordsGte10 hot_entries).
          0 < delta (hot_entry (length (monthlyOrder hot_entries)) c)} \<le> 50
        \<longrightarrow> set (hottest hot_entries)
            = hot_entry (length (monthlyOrder hot_entries))
                ` {c \<in> set (wordsGte10 hot_entries).
                    0 < delta (hot_entry (length (monthlyOrder hot_entries)) c)}"
    using c by blast
  then have "set (hottest hot_entries)
       = hot_entry 3 ` {c \<in> set (wordsGte10 hot_entries). 0 < delta (hot_entry 3 c)}"
    unfolding hot_len using k by simp
  then show ?thesis using hot_list m w len k by blast
qed

text \<open>
  The fourth scenario of the specification, a series \<open>[0, 1, 2, 8, 9]\<close> over six months.
\<close>

lemma scenario_focus:
  "hot_entry 6 (js ''focus'', [0, 1, 2, 8, 9])
     = \<lparr> word = js ''focus'', recent = 9, prev = 8, delta = 1, series = [0, 1, 2, 8, 9] \<rparr>"
  by (simp add: hot_entry_def windowN_def havePrev_def slice_def Let_def)

lemma many_tokens: "filtered_tokens (entry_of y m d many_text) = many_words"
  by (simp add: entry_of_sel many_text_def many_words_def char_defs rx_defs clean_defs token_defs)

lemma ym_key_entry: "ym_key (entry_of y m d t) = show_nat y @ js ''-'' @ padStart2 (show_nat m)"
  by (simp add: ym_key_def entry_of_sel)

lemma cap_keys:
  "ym_key (entry_of 2023 3 d t) = js ''2023-03''" "ym_key (entry_of 2023 4 d t) = js ''2023-04''"
  by (simp_all add: ym_key_entry padStart2_def show_nat.simps char_defs)

lemma cap_months: "monthlyOrder cap_entries = [js ''2023-03'', js ''2023-04'']"
  by (simp add: cap_entries_def monthlyOrder_def new_Set_def cap_keys char_defs)

lemma cap_index: "monthIndex cap_entries = [(js ''2023-03'', 0), (js ''2023-04'', 1)]"
  by (simp add: monthIndex_def cap_months char_defs upt_rec)

lemma many_words_distinct: "distinct many_words" "length many_words = 51"
  by (simp_all add: many_words_def char_defs)

lemma many_words_fresh: "js ''plan'' \<notin> set many_words" "js ''focus'' \<notin> set many_words"
  by (simp_all add: many_words_def char_defs)

lemma cap_tokens_0:
  "index_tokens (\<lambda>e. map_of (monthIndex cap_entries) (ym_key e)) cap_entries 0
     = [js ''plan'', js ''focus'']"
  unfolding cap_index
  by (simp add: index_tokens_def cap_entries_def cap_keys tokens_b many_tokens char_defs)

lemma cap_tokens_1:
  "index_tokens (\<lambda>e. map_of (monthIndex cap_entries) (ym_key e)) cap_entries (Suc 0)
     = many_words @ many_words @ many_words @ many_words @ many_words
       @ many_words @ many_words @ many_words @ many_words @ many_words"
  unfolding cap_index
  by (simp add: index_tokens_def cap_entries_def cap_keys tokens_b many_tokens char_defs)

lemma cap_all_tokens: "set (all_tokens cap_entries) = {js ''plan'', js ''focus''} \<union> set many_words"
  by (auto simp: all_tokens_def cap_entries_def tokens_b many_tokens)

lemma count_list_distinct: "distinct xs \<Longrightarrow> w \<in> set xs \<Longrightarrow> count_list xs w = 1"
  by (induction xs) auto

lemma cap_row:
  assumes "w \<in> set many_words"
  shows "(w, [0, 10]) \<in> set (perWordMonthCounts cap_entries)"
proof -
  have "w \<in> fst ` set (perWordMonthCounts cap_entries)"
    using assms by (simp add: matrix_rows(3) cap_all_tokens)
  then obtain arr where arr: "(w, arr) \<in> set (perWordMonthCounts cap_entries)" by force
  have len: "length arr = 2" using matrix_row(1) [OF arr] by (simp add: cap_months)
  have w0: "w \<noteq> js ''plan''" "w \<noteq> js ''focus''" using assms many_words_fresh by auto
  have "arr ! 0 = 0"
    using matrix_cell [OF arr, of 0] w0 by (simp add: cap_months cap_tokens_0)
  moreover have "arr ! Suc 0 = 10"
    using matrix_cell [OF arr, of "Suc 0"] assms many_words_distinct(1)
    by (simp add: cap_months cap_tokens_1 count_list_distinct)
  ultimately have "arr = [0, 10]"
    using len by (auto simp: list_eq_iff_nth_eq less_Suc_eq numeral_2_eq_2)
  then show ?thesis using arr by simp
qed

lemma cap_delta: "delta (hot_entry (Suc (Suc 0)) (w, [10])) = 10"
  by (simp add: hot_entry_fields windowN_eq slice_def)

text \<open>
  Eleven entries: one in March, and ten in April that each contain the same 51 words. Every
  one of the 51 words is a candidate with the series \<open>[10]\<close> and a delta of 10, and the
  hottest list, which has at most 50 entries, cannot hold them all.
\<close>

theorem hottest_cap_counterexample:
  "list_all (\<lambda>w. (w, [10]) \<in> set (wordsGte10 cap_entries)
          \<and> 0 < delta (hot_entry (length (monthlyOrder cap_entries)) (w, [10]))) many_words
   \<and> \<not> set many_words \<subseteq> word ` set (hottest cap_entries)"
proof -
  have "(w, [10]) \<in> set (wordsGte10 cap_entries)" if "w \<in> set many_words" for w
    using cap_row [OF that] by (force simp: set_wordsGte10 in_candidates)
  then have a: "list_all (\<lambda>w. (w, [10]) \<in> set (wordsGte10 cap_entries)
          \<and> 0 < delta (hot_entry (length (monthlyOrder cap_entries)) (w, [10]))) many_words"
    by (simp add: list_all_iff cap_months cap_delta)
  have "card (word ` set (hottest cap_entries)) \<le> length (hottest cap_entries)"
    by (meson card_image_le card_length le_trans List.finite_set)
  then have le: "card (word ` set (hottest cap_entries)) \<le> 50"
    using hottest_of_length [of "length (monthlyOrder cap_entries)" "wordsGte10 cap_entries"]
    by (simp add: hottest_def)
  have c51: "card (set many_words) = 51"
    using many_words_distinct by (simp add: distinct_card)
  have "\<not> set many_words \<subseteq> word ` set (hottest cap_entries)"
  proof
    assume "set many_words \<subseteq> word ` set (hottest cap_entries)"
    then have "card (set many_words) \<le> card (word ` set (hottest cap_entries))"
      by (intro card_mono) simp_all
    then show False using le c51 by simp
  qed
  with a show ?thesis by blast
qed

section \<open>Sparkline geometry\<close>

lemma x_denominator_pos: "0 < x_denominator n"
  by (simp add: x_denominator_def)

lemma y_range_nonzero:
  assumes "vs \<noteq> []" and "\<forall>v \<in> set vs. fl v = v"
  shows "y_range vs \<noteq> 0"
proof -
  have "Max (set vs) \<in> set vs" "Min (set vs) \<in> set vs"
    using assms(1) by (simp_all add: Max_in Min_in)
  then have "fl (Max (set vs)) = Max (set vs)" "fl (Min (set vs)) = Min (set vs)"
    using assms(2) by blast+
  then have "Max (set vs) \<noteq> Min (set vs) \<Longrightarrow> fl (Max (set vs) - Min (set vs)) \<noteq> 0"
    by (rule fl_diff_nonzero)
  then show ?thesis by (auto simp: y_range_def Let_def)
qed

lemma show_nat_digit: "n < 10 \<Longrightarrow> show_nat n = [0x30 + n]"
  by (subst show_nat.simps) simp

lemma floor_half: "\<lfloor>(of_int k :: rat) * 100 + 1 / 2\<rfloor> = 100 * k"
  by (rule floor_unique) simp_all

lemma toFixed2_of_int:
  assumes "0 \<le> k"
  shows "toFixed2 (of_int k) = show_nat (nat k) @ js ''.00''"
proof -
  have "nat \<lfloor>\<bar>of_int k :: rat\<bar> * 100 + 1 / 2\<rfloor> = 100 * nat k"
    using assms floor_half [of k] by (simp add: nat_mult_distrib)
  then show ?thesis
    using assms by (simp add: toFixed2_def Let_def show_nat_digit char_defs)
qed

lemma toFixed2_pad: "toFixed2 (of_int pad) = js ''6.00''"
  using toFixed2_of_int [of pad] by (simp add: pad_def show_nat_digit char_defs)

lemma toFixed2_examples:
  "toFixed2 6 = js ''6.00''" "toFixed2 54 = js ''54.00''" "toFixed2 30 = js ''30.00''"
  "toFixed2 140 = js ''140.00''" "toFixed2 274 = js ''274.00''"
  using toFixed2_of_int [of 6] toFixed2_of_int [of 54] toFixed2_of_int [of 30]
    toFixed2_of_int [of 140] toFixed2_of_int [of 274]
  by (simp_all add: show_nat.simps char_defs)

lemma x_coord_first: "x_coord n W 0 = of_int pad"
  using fl_int [of pad] by (simp add: x_coord_def fl_zero pad_def)

lemma constant_series:
  assumes "Min (set vs) = Max (set vs)" and "v \<in> set vs"
  shows "v = Min (set vs)"
proof -
  have "Min (set vs) \<le> v" "v \<le> Max (set vs)"
    using assms(2) by (simp_all add: Min_le Max_ge)
  then show ?thesis using assms(1) by simp
qed

lemma y_coord_constant:
  assumes "Min (set vs) = Max (set vs)" and "v \<in> set vs" and "\<bar>H - pad\<bar> < 2 ^ 53"
  shows "y_coord vs H v = of_int (H - pad)"
proof -
  have "v - Min (set vs) = 0" using constant_series [OF assms(1,2)] by simp
  then show ?thesis using fl_int [OF assms(3)] by (simp add: y_coord_def fl_zero)
qed

lemma points_constant:
  assumes "Min (set vs) = Max (set vs)" and "\<bar>H - pad\<bar> < 2 ^ 53"
  shows "sparkline_points vs W H
    = map (\<lambda>i. (x_coord (length vs) W i, of_int (H - pad))) [0 ..< length vs]"
proof -
  have "sparkline_points vs W H
      = map (\<lambda>(v, i). (x_coord (length vs) W i, of_int (H - pad))) (zip vs [0 ..< length vs])"
    unfolding sparkline_points_def
    by (rule map_cong) (auto dest: set_zip_leftD simp: y_coord_constant [OF assms(1) _ assms(2)])
  also have "\<dots> = map (\<lambda>i. (x_coord (length vs) W i, of_int (H - pad))) [0 ..< length vs]"
    by (rule nth_equalityI) simp_all
  finally show ?thesis .
qed

lemma commands_of_points:
  assumes "sparkline_points vs W H = map P [0 ..< length vs]"
  shows "path_commands vs W H
    = map (\<lambda>i. (if i = 0 then js ''M'' else js ''L'') @ toFixed2 (fst (P i)) @ js '',''
                 @ toFixed2 (snd (P i))) [0 ..< length vs]"
  unfolding path_commands_def assms
  by (simp add: zip_map1 zip_same_conv_map)

lemma render_nonempty:
  "vs \<noteq> [] \<Longrightarrow> renderSparkline vs W H stroke = svg W H stroke (join_sp (path_commands vs W H))"
  by (simp add: renderSparkline_def)

text \<open>
  Claim C2, as the code has it. For a non-empty series whose minimum equals its maximum the
  range is taken as 1 and the renderer returns the template around a path whose commands
  all end in the same Y coordinate, namely height minus padding: the flat line runs along
  the bottom edge of the drawable area, since \<open>v - min\<close> is 0 for every value. It is not
  the line midway between the two paddings. The X coordinates are those of \<open>x_coord\<close>, and
  the height minus the padding is below \<open>2^53\<close> in magnitude.
\<close>

theorem sparkline_constant:
  assumes "vs \<noteq> []" and "Min (set vs) = Max (set vs)" and "\<bar>H - pad\<bar> < 2 ^ 53"
  shows "y_range vs = 1
    \<and> length (sparkline_points vs W H) = length vs
    \<and> (\<forall>p \<in> set (sparkline_points vs W H). snd p = of_int (H - pad))
    \<and> path_commands vs W H
        = map (\<lambda>i. (if i = 0 then js ''M'' else js ''L'') @ toFixed2 (x_coord (length vs) W i)
                     @ js '','' @ toFixed2 (of_int (H - pad))) [0 ..< length vs]
    \<and> renderSparkline vs W H stroke
        = svg W H stroke (join_sp
            (map (\<lambda>i. (if i = 0 then js ''M'' else js ''L'') @ toFixed2 (x_coord (length vs) W i)
                       @ js '','' @ toFixed2 (of_int (H - pad))) [0 ..< length vs]))"
proof -
  have r: "y_range vs = 1"
    using assms(2) by (simp add: y_range_def Let_def)
  note pts = points_constant [OF assms(2,3), of W]
  have cmds: "path_commands vs W H
        = map (\<lambda>i. (if i = 0 then js ''M'' else js ''L'') @ toFixed2 (x_coord (length vs) W i)
                     @ js '','' @ toFixed2 (of_int (H - pad))) [0 ..< length vs]"
    using commands_of_points [OF pts] by simp
  have "length (sparkline_points vs W H) = length vs"
    "\<forall>p \<in> set (sparkline_points vs W H). snd p = of_int (H - pad)"
    unfolding pts by auto
  then show ?thesis
    using r cmds render_nonempty [OF assms(1), of W H stroke] by simp
qed

lemma x_coords_3_280:
  "x_coord (Suc (Suc (Suc 0))) 280 0 = 6"
  "x_coord (Suc (Suc (Suc 0))) 280 (Suc 0) = 140"
  "x_coord (Suc (Suc (Suc 0))) 280 (Suc (Suc 0)) = 274"
  by (simp_all add: x_coord_def x_denominator_def pad_def fl_zero fl_numeral)

lemma upt_3: "[0 ..< 3] = [0, 1, 2]"
  by (simp add: upt_rec)

text \<open>
  The series \<open>[5, 5, 5]\<close> at width 280 and height 60, with the default stroke.
\<close>

theorem sparkline_constant_witness:
  "[5, 5, 5 :: rat] \<noteq> [] \<and> Min (set [5, 5, 5 :: rat]) = Max (set [5, 5, 5])
    \<and> \<bar>60 - pad\<bar> < 2 ^ 53
    \<and> y_range [5, 5, 5] = 1
    \<and> list_all (\<lambda>p. snd p = 54) (sparkline_points [5, 5, 5] 280 60)
    \<and> path_commands [5, 5, 5] 280 60
        = [js ''M6.00,54.00'', js ''L140.00,54.00'', js ''L274.00,54.00'']
    \<and> renderSparkline [5, 5, 5] 280 60 (js ''#fff'')
        = svg 280 60 (js ''#fff'') (js ''M6.00,54.00 L140.00,54.00 L274.00,54.00'')"
  using sparkline_constant [of "[5, 5, 5]" 60 280 "js ''#fff''"]
  by (simp add: list_all_iff pad_def upt_3 x_coords_3_280 toFixed2_examples char_defs)

lemma points_555: "sparkline_points [5, 5, 5] 280 60 = [(6, 54), (140, 54), (274, 54)]"
  by (simp add: sparkline_points_def upt_3 x_coords_3_280 y_coord_def y_range_def pad_def
      fl_zero fl_numeral)

lemma commands_555:
  "path_commands [5, 5, 5] 280 60
     = [js ''M6.00,54.00'', js ''L140.00,54.00'', js ''L274.00,54.00'']"
  unfolding path_commands_def points_555
  by (simp add: upt_rec toFixed2_examples char_defs)

text \<open>
  The series \<open>[5, 5, 5]\<close> at width 280 and height 60: the renderer returns the path
  \<open>M6.00,54.00 L140.00,54.00 L274.00,54.00\<close>. All three points have Y = 54, while the
  line midway between the top padding 6 and height minus padding 54 would be Y = 30,
  printed \<open>30.00\<close>.
\<close>

theorem sparkline_midline_counterexample:
  "sparkline_points [5, 5, 5] 280 60 = [(6, 54), (140, 54), (274, 54)]
   \<and> renderSparkline [5, 5, 5] 280 60 (js ''#fff'')
       = svg 280 60 (js ''#fff'') (js ''M6.00,54.00 L140.00,54.00 L274.00,54.00'')
   \<and> (of_int pad + of_int (60 - pad)) / 2 = (30 :: rat)
   \<and> toFixed2 30 \<noteq> toFixed2 54"
  using points_555 by (simp add: renderSparkline_def commands_555 pad_def toFixed2_examples char_defs)

text \<open>
  Claim C9. The degenerate cases of the renderer. For the empty series it returns the empty
  string. For a series of one value it returns the template around a path of exactly one
  command, an \<open>M\<close> whose X coordinate is the left padding, printed \<open>6.00\<close>; its Y coordinate
  is height minus padding when that is below \<open>2^53\<close> in magnitude. Neither divisor of the
  renderer is zero: the X divisor \<open>max 1 (n - 1)\<close> is positive, and the Y divisor of a
  non-empty series of doubles is 1 when the maximum equals the minimum and their rounded
  difference otherwise, which is not zero.
\<close>

theorem sparkline_degenerate:
  "renderSparkline [] W H stroke = []
   \<and> sparkline_points [v] W H = [(of_int pad, y_coord [v] H v)]
   \<and> path_commands [v] W H = [js ''M6.00,'' @ toFixed2 (y_coord [v] H v)]
   \<and> renderSparkline [v] W H stroke
       = svg W H stroke (js ''M6.00,'' @ toFixed2 (y_coord [v] H v))
   \<and> (\<bar>H - pad\<bar> < 2 ^ 53 \<longrightarrow> y_coord [v] H v = of_int (H - pad))
   \<and> 0 < x_denominator n
   \<and> (vs \<noteq> [] \<and> (\<forall>x \<in> set vs. fl x = x) \<longrightarrow> y_range vs \<noteq> 0)"
proof -
  have pts: "sparkline_points [v] W H = [(of_int pad, y_coord [v] H v)]"
    by (simp add: sparkline_points_def x_coord_first)
  have cmds: "path_commands [v] W H = [js ''M6.00,'' @ toFixed2 (y_coord [v] H v)]"
    unfolding path_commands_def pts by (simp add: toFixed2_pad char_defs)
  have out: "renderSparkline [v] W H stroke
       = svg W H stroke (js ''M6.00,'' @ toFixed2 (y_coord [v] H v))"
    using cmds by (simp add: renderSparkline_def)
  have y: "y_coord [v] H v = of_int (H - pad)" if "\<bar>H - pad\<bar> < 2 ^ 53"
    using y_coord_constant [of "[v]" v H] that by simp
  have "renderSparkline [] W H stroke = []"
    by (simp add: renderSparkline_def)
  then show ?thesis
    using pts cmds out y x_denominator_pos y_range_nonzero by blast
qed

lemma show_int_examples: "show_int 280 = js ''280''" "show_int 60 = js ''60''"
  by (simp_all add: show_int_def show_nat.simps char_defs)

text \<open>
  The series \<open>[7]\<close> at the default size and stroke, with the returned string written out, and
  the series \<open>[3, 5]\<close> of two doubles for the Y divisor.
\<close>

theorem sparkline_degenerate_witness:
  "\<bar>60 - pad\<bar> < 2 ^ 53
   \<and> path_commands [7] 280 60 = [js ''M6.00,54.00'']
   \<and> renderSparkline [7] 280 60 (js ''#fff'')
       = js ''<svg width='' @ dq @ js ''280'' @ dq @ js '' height='' @ dq @ js ''60'' @ dq
         @ js '' viewBox='' @ dq @ js ''0 0 280 60'' @ dq
         @ js '' xmlns='' @ dq @ js ''http://www.w3.org/2000/svg'' @ dq
         @ js '' class='' @ dq @ js ''sparkline'' @ dq @ js ''>'' @ [nl]
         @ js ''    <path d='' @ dq @ js ''M6.00,54.00'' @ dq
         @ js '' fill='' @ dq @ js ''none'' @ dq @ js '' stroke='' @ dq @ js ''#fff'' @ dq
         @ js '' stroke-width='' @ dq @ js ''2'' @ dq @ js '' />'' @ [nl]
         @ js ''  </svg>''
   \<and> [3, 5 :: rat] \<noteq> [] \<and> list_all (\<lambda>x. fl x = x) [3, 5] \<and> y_range [3, 5] \<noteq> 0"
proof -
  note d = sparkline_degenerate [of 280 60 "js ''#fff''" 7 0 "[3, 5]"]
  have h: "\<bar>60 - pad\<bar> < 2 ^ 53" by (simp add: pad_def)
  have v: "list_all (\<lambda>x. fl x = x) [3, 5]" by (simp add: fl_numeral)
  have "y_coord [7] 60 7 = of_int (60 - pad)"
    using d h by blast
  moreover have "path_commands [7] 280 60 = [js ''M6.00,'' @ toFixed2 (y_coord [7] 60 7)]"
    "renderSparkline [7] 280 60 (js ''#fff'')
      = svg 280 60 (js ''#fff'') (js ''M6.00,'' @ toFixed2 (y_coord [7] 60 7))"
    using d by blast+
  moreover have "y_range [3, 5] \<noteq> 0"
    using d v by (simp add: list_all_iff)
  ultimately show ?thesis
    using h v
    by (simp add: svg_def pad_def toFixed2_examples show_int_examples char_defs)
qed

text \<open>
  A coordinate that is not an integer: the series \<open>[0, 1, 80]\<close> at height 50. The Y
  coordinate of the value 1 is \<open>44 - 38 / 80\<close>, computed in doubles: the quotient and then
  the difference are rounded, the difference to a double just below 43.525, which
  \<^verbatim>\<open>toFixed(2)\<close> prints as \<open>43.52\<close>. The exact value 43.525 would be printed as \<open>43.53\<close>.
\<close>

lemma y_coord_rounded: "y_coord [0, 1, 80] 50 1 = 6125599180665651 / 2 ^ 47"
proof -
  have "y_range [0, 1, 80] = 80"
    by (simp add: y_range_def fl_numeral)
  then show ?thesis
    by (simp add: y_coord_def pad_def fl_numeral fl_19_40 fl_y [simplified] fl_int [of 1, simplified])
qed

lemma toFixed2_rounded:
  "toFixed2 (y_coord [0, 1, 80] 50 1) = js ''43.52''"
  "toFixed2 (44 - 38 / 80) = js ''43.53''"
proof -
  have "\<lfloor>(612559918066565100 / 140737488355328 + 1 / 2 :: rat)\<rfloor> = 4352"
    by (rule floor_unique) simp_all
  then show "toFixed2 (y_coord [0, 1, 80] 50 1) = js ''43.52''"
    unfolding y_coord_rounded
    by (simp add: toFixed2_def Let_def show_nat.simps char_defs)
  have "\<lfloor>(8705 / 2 + 1 / 2 :: rat)\<rfloor> = 4353"
    by (rule floor_unique) simp_all
  then show "toFixed2 (44 - 38 / 80) = js ''43.53''"
    by (simp add: toFixed2_def Let_def show_nat.simps char_defs)
qed

end
